theory Spec2Isabelle
  imports Main "HOL-Library.Sublist"
begin

section \<open>Values of the host language\<close>

text \<open>
  The program is \<^verbatim>\<open>src/script.js\<close>: a loader of remote scripts that queues deferred
  requests until the document is ready, loads them one at a time and captures what
  each script passes to \<^verbatim>\<open>document.write\<close>.

  An exception is a value; every function that can throw returns the exception (if
  any) next to the state it leaves behind.
\<close>

datatype exn =
    NoArguments      \<comment> \<open>\<^verbatim>\<open>throw 'script : no arguments given'\<close>\<close>
  | SrcRequired      \<comment> \<open>\<^verbatim>\<open>throw "script : 'src' is required"\<close>\<close>
  | TypeError        \<comment> \<open>a property read or a call on \<^verbatim>\<open>null\<close>/\<^verbatim>\<open>undefined\<close>\<close>
  | NotFoundError    \<comment> \<open>the host's \<^verbatim>\<open>insertBefore\<close>/\<^verbatim>\<open>removeChild\<close> on a node that is not a child\<close>
  | CallbackError    \<comment> \<open>a caller-supplied callback raised\<close>
  | Hang             \<comment> \<open>a loop of the source that does not end\<close>

text \<open>A property that holds a boolean, \<^verbatim>\<open>null\<close>, or nothing at all.\<close>

datatype flag = Undefined | Null | Flag bool

fun truthy :: "flag \<Rightarrow> bool" where
  "truthy (Flag b) = b"
| "truthy _ = False"

text \<open>\<^verbatim>\<open>x != null\<close>: neither \<^verbatim>\<open>null\<close> nor \<^verbatim>\<open>undefined\<close>.\<close>

fun not_null :: "flag \<Rightarrow> bool" where
  "not_null (Flag b) = True"
| "not_null _ = False"

text \<open>
  A string property that may be absent. Absent and the empty string are both falsy;
  concatenating an absent value gives the text \<^verbatim>\<open>undefined\<close>.
\<close>

fun truthy_str :: "string option \<Rightarrow> bool" where
  "truthy_str None = False"
| "truthy_str (Some s) = (s \<noteq> [])"

fun jsstr :: "string option \<Rightarrow> string" where
  "jsstr None = ''undefined''"
| "jsstr (Some s) = s"

definition digit_char :: "nat \<Rightarrow> char" where
  "digit_char d = char_of (48 + d)"

fun string_of_nat :: "nat \<Rightarrow> string" where
  "string_of_nat n =
     (if n < 10 then [digit_char n] else string_of_nat (n div 10) @ [digit_char (n mod 10)])"

declare string_of_nat.simps [simp del]

section \<open>Requests\<close>

text \<open>
  What a callback does, as far as the loader can see: it returns \<^verbatim>\<open>false\<close>, returns
  anything else, or raises. The \<^verbatim>\<open>loaded\<close> callback receives the array of captured
  writes itself (or \<^verbatim>\<open>undefined\<close>), so it may also rewrite the array in place.
  Callbacks are assumed not to call back into the loader.
\<close>

datatype outcome = ReturnsFalse | ReturnsOther | Raises

record loaded_cb =
  cb_return :: "string list option \<Rightarrow> outcome"
  cb_rewrite :: "string list \<Rightarrow> string list"

text \<open>
  Where a caller-supplied \<^verbatim>\<open>append\<close> function puts the script element: under a node,
  before a node, nowhere, or it raises.
\<close>

datatype placement = IntoNode nat | BeforeNode nat | Nowhere | Fails

text \<open>
  The \<^verbatim>\<open>append\<close> option. A string names a container by id, a node is the container, a
  function is the caller's; \<^verbatim>\<open>script\<close> itself supplies the last two where the
  option is absent.
\<close>

datatype appender =
    AppendToId string
  | AppendToNode nat
  | UserAppend placement
  | BeforeDiv        \<comment> \<open>\<^verbatim>\<open>$div.parentNode.insertBefore($script, $div)\<close>\<close>
  | ToBody           \<comment> \<open>\<^verbatim>\<open>getElementsByTagName('body')[0].appendChild(script)\<close>\<close>

record options =
  opt_src :: "string option"
  opt_base :: "string option"
  opt_id :: "string option"
  opt_type :: "string option"
  opt_charset :: "string option"
  opt_defer :: flag
  opt_onLoad :: flag
  opt_onload :: flag
  opt_order :: "int option"
  opt_loadingHTML :: "string option"
  opt_loaded :: "loaded_cb option"
  opt_complete :: "outcome option"
  opt_append :: "appender option"

definition no_options :: options where
  "no_options = \<lparr> opt_src = None, opt_base = None, opt_id = None, opt_type = None,
     opt_charset = None, opt_defer = Undefined, opt_onLoad = Undefined,
     opt_onload = Undefined, opt_order = None, opt_loadingHTML = None,
     opt_loaded = None, opt_complete = None, opt_append = None \<rparr>"

text \<open>The argument of \<^verbatim>\<open>script\<close>: nothing, a string, or an object of options.\<close>

datatype arg = NoArg | StrArg string | ObjArg options

section \<open>The document\<close>

text \<open>
  Nodes live in a store and are referred to by their index. A node knows its parent
  and its children, as in the host.
\<close>

record node =
  tagName :: string
  node_id :: "string option"
  node_src :: "string option"
  node_type :: "string option"
  node_charset :: "string option"
  parentNode :: "nat option"
  childNodes :: "nat list"
  display :: "string option"
  markup :: string

definition new_node :: "string \<Rightarrow> node" where
  "new_node t = \<lparr> tagName = t, node_id = None, node_src = None, node_type = None,
     node_charset = None, parentNode = None, childNodes = [], display = None,
     markup = [] \<rparr>"

definition createElement :: "string \<Rightarrow> node list \<Rightarrow> nat \<times> node list" where
  "createElement t ns = (length ns, ns @ [new_node t])"

definition detach :: "nat \<Rightarrow> node list \<Rightarrow> node list" where
  "detach c ns =
     (case parentNode (ns ! c) of
        None \<Rightarrow> ns
      | Some p \<Rightarrow>
          (let ns1 = ns[p := (ns ! p)\<lparr>childNodes := removeAll c (childNodes (ns ! p))\<rparr>]
           in ns1[c := (ns1 ! c)\<lparr>parentNode := None\<rparr>]))"

definition appendChild :: "nat \<Rightarrow> nat \<Rightarrow> node list \<Rightarrow> node list" where
  "appendChild p c ns =
     (let ns1 = detach c ns;
          ns2 = ns1[p := (ns1 ! p)\<lparr>childNodes := childNodes (ns1 ! p) @ [c]\<rparr>]
      in ns2[c := (ns2 ! c)\<lparr>parentNode := Some p\<rparr>])"

definition insertBefore :: "nat \<Rightarrow> nat \<Rightarrow> nat \<Rightarrow> node list \<Rightarrow> exn option \<times> node list" where
  "insertBefore p c r ns =
     (if parentNode (ns ! r) \<noteq> Some p then (Some NotFoundError, ns)
      else
        (let ns1 = detach c ns;
             kids = childNodes (ns1 ! p);
             ns2 = ns1[p := (ns1 ! p)\<lparr>childNodes :=
                      takeWhile (\<lambda>x. x \<noteq> r) kids @ c # dropWhile (\<lambda>x. x \<noteq> r) kids\<rparr>]
         in (None, ns2[c := (ns2 ! c)\<lparr>parentNode := Some p\<rparr>])))"

definition removeChild :: "nat \<Rightarrow> nat \<Rightarrow> node list \<Rightarrow> exn option \<times> node list" where
  "removeChild p c ns =
     (if parentNode (ns ! c) \<noteq> Some p then (Some NotFoundError, ns)
      else (None, detach c ns))"

definition nextSibling :: "nat \<Rightarrow> node list \<Rightarrow> nat option" where
  "nextSibling s ns =
     (case parentNode (ns ! s) of
        None \<Rightarrow> None
      | Some p \<Rightarrow>
          (case dropWhile (\<lambda>x. x \<noteq> s) (childNodes (ns ! p)) of
             _ # y # _ \<Rightarrow> Some y
           | _ \<Rightarrow> None))"

text \<open>
  The first node in document order that satisfies a test: a walk from the root, the
  children of a node before its later siblings. The walk visits every node of a tree
  within as many steps as the store has nodes.
\<close>

fun find_node :: "nat \<Rightarrow> (node \<Rightarrow> bool) \<Rightarrow> node list \<Rightarrow> nat list \<Rightarrow> nat option" where
  "find_node 0 P ns todo = None"
| "find_node (Suc k) P ns [] = None"
| "find_node (Suc k) P ns (r # rs) =
     (if r < length ns then
        (if P (ns ! r) then Some r else find_node k P ns (childNodes (ns ! r) @ rs))
      else find_node k P ns rs)"

section \<open>The state of the loader and of its host\<close>

text \<open>What \<^verbatim>\<open>document.write\<close> or \<^verbatim>\<open>document.writeln\<close> is bound to.\<close>

datatype writer =
    NativeWrite | NativeWriteln
  | OtherWriter nat      \<comment> \<open>a function some other code of the page installed\<close>
  | TempDocWrite | TempDocWriteln

text \<open>The function \<^verbatim>\<open>loadScript\<close> calls when a load is over.\<close>

datatype endFunction =
    ImmediateEnd   \<comment> \<open>the one \<^verbatim>\<open>script\<close> passes once the document is ready\<close>
  | ScheduledEnd   \<comment> \<open>the one \<^verbatim>\<open>loadAndYieldNext\<close> passes\<close>

text \<open>
  The closure assigned to \<^verbatim>\<open>$script.onload\<close> and \<^verbatim>\<open>$script.onreadystatechange\<close>:
  its variables, and which of the two properties still holds it.
\<close>

record handler =
  h_opts :: options
  h_end :: endFunction
  h_done :: bool
  h_onload :: bool
  h_onreadystatechange :: bool

text \<open>What the loader was seen to do, in order.\<close>

datatype event =
    LoadScript options                     \<comment> \<open>\<^verbatim>\<open>loadScript(opts, ...)\<close> is entered\<close>
  | HandlerBody nat                        \<comment> \<open>the guarded body of the load handler runs\<close>
  | CallLoaded "nat option" "string list option"
  | CallComplete "nat option"
  | EndFunction options                    \<comment> \<open>\<^verbatim>\<open>endFunction()\<close> is called for this request\<close>

record state =
  writes :: "string list option"
  docWrite :: "writer option"
  docWriteln :: "writer option"
  document_write :: writer
  document_writeln :: writer
  scripts :: "options list option"
  queue :: "options list"                  \<comment> \<open>\<^verbatim>\<open>_scripts\<close>\<close>
  qnext :: nat                             \<comment> \<open>\<^verbatim>\<open>_scripts.next\<close>\<close>
  DOMContentLoaded :: bool                 \<comment> \<open>the variable is not yet \<^verbatim>\<open>null\<close>\<close>
  listening :: bool                        \<comment> \<open>the listener of the document is registered\<close>
  uid :: nat
  defaults :: "options option"
  nodes :: "node list"
  root :: nat
  cursor :: nat                            \<comment> \<open>the element the parser is inside\<close>
  parseHTML :: "string \<Rightarrow> string list"
  handlers :: "nat \<Rightarrow> handler option"
  written :: "string list"
  trace :: "event list"

definition emit :: "event \<Rightarrow> state \<Rightarrow> state" where
  "emit e st = st\<lparr>trace := trace st @ [e]\<rparr>"

definition getElementById :: "string \<Rightarrow> state \<Rightarrow> nat option" where
  "getElementById i st =
     find_node (Suc (length (nodes st))) (\<lambda>n. node_id n = Some i) (nodes st) [root st]"

definition body_element :: "state \<Rightarrow> nat option" where
  "body_element st =
     find_node (Suc (length (nodes st))) (\<lambda>n. tagName n = ''body'') (nodes st) [root st]"

section \<open>The write interceptor\<close>

definition tempDocWrite :: "string option \<Rightarrow> state \<Rightarrow> state" where
  "tempDocWrite a st =
     (if truthy_str a then
        st\<lparr>writes := Some ((case writes st of None \<Rightarrow> [] | Some w \<Rightarrow> w) @ [jsstr a])\<rparr>
      else st)"

definition tempDocWriteln :: "string option \<Rightarrow> state \<Rightarrow> state" where
  "tempDocWriteln a st = tempDocWrite (Some (jsstr a @ [CHR 0x0A])) st"

definition overrideDocWrites :: "state \<Rightarrow> state" where
  "overrideDocWrites st =
     st\<lparr>docWrite := (case docWrite st of None \<Rightarrow> Some (document_write st) | Some w \<Rightarrow> Some w),
        docWriteln := (case docWriteln st of None \<Rightarrow> Some (document_writeln st) | Some w \<Rightarrow> Some w),
        document_write := TempDocWrite,
        document_writeln := TempDocWriteln\<rparr>"

definition restoreDocWrites :: "state \<Rightarrow> state" where
  "restoreDocWrites st =
     st\<lparr>document_write := (case docWrite st of Some w \<Rightarrow> w | None \<Rightarrow> document_write st),
        document_writeln := (case docWriteln st of Some w \<Rightarrow> w | None \<Rightarrow> document_writeln st),
        docWrite := None,
        docWriteln := None\<rparr>"

text \<open>
  A call of whatever a property of the document is bound to. The host's own functions
  put the text into the document; the stand-ins buffer it.
\<close>

definition call_writer :: "writer \<Rightarrow> string option \<Rightarrow> state \<Rightarrow> state" where
  "call_writer w a st =
     (case w of
        TempDocWrite \<Rightarrow> tempDocWrite a st
      | TempDocWriteln \<Rightarrow> tempDocWriteln a st
      | NativeWriteln \<Rightarrow> st\<lparr>written := written st @ [jsstr a @ [CHR 0x0A]]\<rparr>
      | _ \<Rightarrow> st\<lparr>written := written st @ [jsstr a]\<rparr>)"

definition document_write_call :: "string option \<Rightarrow> state \<Rightarrow> state" where
  "document_write_call a st = call_writer (document_write st) a st"

definition document_writeln_call :: "string option \<Rightarrow> state \<Rightarrow> state" where
  "document_writeln_call a st = call_writer (document_writeln st) a st"

section \<open>The single-load executor\<close>

subsection \<open>Callbacks\<close>

text \<open>
  \<^verbatim>\<open>loadedCallback.call($script, writes || undefined)\<close>: the callback sees the buffer and
  may rewrite it.
\<close>

definition call_loaded :: "loaded_cb \<Rightarrow> nat option \<Rightarrow> state \<Rightarrow> outcome \<times> state" where
  "call_loaded cb this st =
     (cb_return cb (writes st),
      (emit (CallLoaded this (writes st)) st)\<lparr>writes := map_option (cb_rewrite cb) (writes st)\<rparr>)"

text \<open>\<^verbatim>\<open>loadedCallback.call($script)\<close> of the synchronous mode: no argument.\<close>

definition call_loaded_plain :: "loaded_cb \<Rightarrow> nat option \<Rightarrow> state \<Rightarrow> outcome \<times> state" where
  "call_loaded_plain cb this st = (cb_return cb None, emit (CallLoaded this None) st)"

definition call_complete :: "options \<Rightarrow> nat option \<Rightarrow> state \<Rightarrow> exn option \<times> state" where
  "call_complete opts this st =
     (case opt_complete opts of
        None \<Rightarrow> (None, st)
      | Some oc \<Rightarrow> (if oc = Raises then Some CallbackError else None, emit (CallComplete this) st))"

subsection \<open>Putting the captured writes after the script element\<close>

definition appendNode :: "nat \<Rightarrow> nat \<Rightarrow> state \<Rightarrow> exn option \<times> state" where
  "appendNode s c st =
     (case parentNode (nodes st ! s) of
        None \<Rightarrow> (Some TypeError, st)
      | Some p \<Rightarrow>
          (case nextSibling s (nodes st) of
             Some sib \<Rightarrow>
               (let r = insertBefore p c sib (nodes st) in (fst r, st\<lparr>nodes := snd r\<rparr>))
           | None \<Rightarrow> (None, st\<lparr>nodes := appendChild p c (nodes st)\<rparr>)))"

text \<open>
  \<^verbatim>\<open>$div.innerHTML = html\<close>: the old children leave the tree, and the host's parser makes
  one new child per top-level piece of the markup.
\<close>

definition set_innerHTML :: "nat \<Rightarrow> string \<Rightarrow> state \<Rightarrow> state" where
  "set_innerHTML d html st =
     (let ns1 = fold (\<lambda>c ns. ns[c := (ns ! c)\<lparr>parentNode := None\<rparr>])
                  (childNodes (nodes st ! d)) (nodes st);
          pieces = parseHTML st html;
          k = length ns1;
          ns2 = ns1 @ map (\<lambda>m. (new_node ''#fragment'')\<lparr>markup := m, parentNode := Some d\<rparr>) pieces
      in st\<lparr>nodes := ns2[d := (ns2 ! d)\<lparr>childNodes := [k ..< k + length pieces]\<rparr>]\<rparr>)"

text \<open>
  The \<^verbatim>\<open>while ( $divNode )\<close> loop: the first child of the placeholder is taken out and
  put after the script element, until the placeholder has no child. The node list is
  live, so the first child is read again each time. The counter is the number of
  children at the start of the loop, which is as many rounds as the loop makes when the
  script element is not itself under the placeholder.
\<close>

fun move_children :: "nat \<Rightarrow> nat \<Rightarrow> nat \<Rightarrow> state \<Rightarrow> exn option \<times> state" where
  "move_children 0 d s st =
     (case childNodes (nodes st ! d) of [] \<Rightarrow> (None, st) | _ # _ \<Rightarrow> (Some Hang, st))"
| "move_children (Suc k) d s st =
     (case childNodes (nodes st ! d) of
        [] \<Rightarrow> (None, st)
      | c # _ \<Rightarrow>
          (case removeChild d c (nodes st) of
             (Some e, ns) \<Rightarrow> (Some e, st)
           | (None, ns) \<Rightarrow>
               (case appendNode s c (st\<lparr>nodes := ns\<rparr>) of
                  (Some e, st') \<Rightarrow> (Some e, st')
                | (None, st') \<Rightarrow> move_children k d s st')))"

text \<open>\<^verbatim>\<open>if ( $div ) $div.parentNode.removeChild($div)\<close>, then the \<^verbatim>\<open>complete\<close> callback.\<close>

definition remove_placeholder :: "nat option \<Rightarrow> state \<Rightarrow> exn option \<times> state" where
  "remove_placeholder dv st =
     (case dv of
        None \<Rightarrow> (None, st)
      | Some d \<Rightarrow>
          (case parentNode (nodes st ! d) of
             None \<Rightarrow> (Some TypeError, st)
           | Some p \<Rightarrow>
               (let r = removeChild p d (nodes st)
                in (fst r, if fst r = None then st\<lparr>nodes := snd r\<rparr> else st))))"

definition finish_load :: "options \<Rightarrow> nat \<Rightarrow> nat option \<Rightarrow> state \<Rightarrow> exn option \<times> state" where
  "finish_load opts s dv st =
     (case remove_placeholder dv st of
        (Some e, st1) \<Rightarrow> (Some e, st1)
      | (None, st1) \<Rightarrow> call_complete opts (Some s) st1)"

text \<open>
  \<^verbatim>\<open>if ( ! $div )\<close>: without a placeholder in the document, a new \<^verbatim>\<open>div\<close> is put after the
  script element.
\<close>

definition ensure_placeholder :: "nat option \<Rightarrow> nat \<Rightarrow> state \<Rightarrow> exn option \<times> nat \<times> state" where
  "ensure_placeholder dv s st =
     (case dv of
        Some d \<Rightarrow> (None, d, st)
      | None \<Rightarrow>
          (let c = createElement ''div'' (nodes st);
               r = appendNode s (fst c) (st\<lparr>nodes := snd c\<rparr>)
           in (fst r, fst c, snd r)))"

text \<open>
  The placeholder is hidden, gets the joined writes as its content, and its children
  are moved after the script element.
\<close>

definition replay :: "nat \<Rightarrow> nat \<Rightarrow> string list \<Rightarrow> state \<Rightarrow> exn option \<times> state" where
  "replay d s ws st =
     (let st2 = st\<lparr>nodes := (nodes st)[d := (nodes st ! d)\<lparr>display := Some ''none''\<rparr>]\<rparr>;
          st3 = set_innerHTML d (concat ws) st2
      in move_children (length (childNodes (nodes st3 ! d))) d s st3)"

text \<open>The part of \<^verbatim>\<open>handleScriptLoaded\<close> after the \<^verbatim>\<open>loaded\<close> callback.\<close>

definition reinsert :: "options \<Rightarrow> nat \<Rightarrow> state \<Rightarrow> exn option \<times> state" where
  "reinsert opts s st =
     (let dv = getElementById (jsstr (opt_id opts)) st in
      case writes st of
        None \<Rightarrow> finish_load opts s dv st
      | Some ws \<Rightarrow>
          (case ensure_placeholder dv s st of
             (Some e, d, st1) \<Rightarrow> (Some e, st1)
           | (None, d, st1) \<Rightarrow>
               (case replay d s ws st1 of
                  (Some e, st4) \<Rightarrow> (Some e, st4)
                | (None, st4) \<Rightarrow> finish_load opts s (Some d) st4)))"

definition handleScriptLoaded :: "options \<Rightarrow> nat \<Rightarrow> state \<Rightarrow> exn option \<times> state" where
  "handleScriptLoaded opts s st =
     (case opt_loaded opts of
        None \<Rightarrow> reinsert opts s st
      | Some cb \<Rightarrow>
          (case call_loaded cb (Some s) st of
             (Raises, st1) \<Rightarrow> (Some CallbackError, st1)
           | (ReturnsFalse, st1) \<Rightarrow> (None, st1)
           | (ReturnsOther, st1) \<Rightarrow> reinsert opts s st1))"

subsection \<open>Where the script element goes\<close>

definition run_append :: "options \<Rightarrow> nat \<Rightarrow> state \<Rightarrow> exn option \<times> state" where
  "run_append opts s st =
     (case opt_append opts of
        None \<Rightarrow> (Some TypeError, st)
      | Some (AppendToId a) \<Rightarrow>
          (case getElementById a st of
             None \<Rightarrow> (Some TypeError, st)
           | Some p \<Rightarrow> (None, st\<lparr>nodes := appendChild p s (nodes st)\<rparr>))
      | Some (AppendToNode p) \<Rightarrow> (None, st\<lparr>nodes := appendChild p s (nodes st)\<rparr>)
      | Some (UserAppend (IntoNode p)) \<Rightarrow> (None, st\<lparr>nodes := appendChild p s (nodes st)\<rparr>)
      | Some (UserAppend (BeforeNode r)) \<Rightarrow>
          (case parentNode (nodes st ! r) of
             None \<Rightarrow> (Some TypeError, st)
           | Some p \<Rightarrow> (let x = insertBefore p s r (nodes st) in (fst x, st\<lparr>nodes := snd x\<rparr>)))
      | Some (UserAppend Nowhere) \<Rightarrow> (None, st)
      | Some (UserAppend Fails) \<Rightarrow> (Some CallbackError, st)
      | Some BeforeDiv \<Rightarrow>
          (case getElementById (jsstr (opt_id opts)) st of
             None \<Rightarrow> (Some TypeError, st)
           | Some d \<Rightarrow>
               (case parentNode (nodes st ! d) of
                  None \<Rightarrow> (Some TypeError, st)
                | Some p \<Rightarrow> (let x = insertBefore p s d (nodes st) in (fst x, st\<lparr>nodes := snd x\<rparr>))))
      | Some ToBody \<Rightarrow>
          (case body_element st of
             None \<Rightarrow> (Some TypeError, st)
           | Some b \<Rightarrow> (None, st\<lparr>nodes := appendChild b s (nodes st)\<rparr>)))"

subsection \<open>The two modes of \<^verbatim>\<open>loadScript\<close>\<close>

text \<open>
  Deferred mode: a new script element, the load handler on both of its properties,
  and the element put into the document.
\<close>

definition load_deferred :: "options \<Rightarrow> endFunction \<Rightarrow> state \<Rightarrow> exn option \<times> state" where
  "load_deferred opts ef st =
     (let c = createElement ''script'' (nodes st);
          s = fst c;
          el = (snd c ! s)\<lparr>node_src := opt_src opts,
                 node_type := (if truthy_str (opt_type opts) then opt_type opts else None),
                 node_charset := (if truthy_str (opt_charset opts) then opt_charset opts else None)\<rparr>;
          h = \<lparr>h_opts = opts, h_end = ef, h_done = False, h_onload = True,
                h_onreadystatechange = True\<rparr>
      in run_append opts s
           (st\<lparr>nodes := (snd c)[s := el], handlers := (handlers st)(s := Some h)\<rparr>))"

text \<open>
  Synchronous mode, the \<^verbatim>\<open>try\<close> block: \<^verbatim>\<open>loaded\<close>, then \<^verbatim>\<open>complete\<close>, the return value of
  neither being looked at.
\<close>

definition sync_callbacks :: "options \<Rightarrow> nat option \<Rightarrow> state \<Rightarrow> exn option \<times> state" where
  "sync_callbacks opts s st =
     (case (case opt_loaded opts of
              None \<Rightarrow> (ReturnsOther, st)
            | Some cb \<Rightarrow> call_loaded_plain cb s st) of
        (Raises, st1) \<Rightarrow> (Some CallbackError, st1)
      | (_, st1) \<Rightarrow> call_complete opts s st1)"

text \<open>
  \<^verbatim>\<open>$script.id = null\<close>: the id of an element is a string attribute of the host, and the
  host turns what is assigned into a string, so the element then has the id \<^verbatim>\<open>null\<close>.
\<close>

definition clear_id :: "nat \<Rightarrow> state \<Rightarrow> state" where
  "clear_id r st = st\<lparr>nodes := (nodes st)[r := (nodes st ! r)\<lparr>node_id := Some ''null''\<rparr>]\<rparr>"

lemma emit_fields [simp]:
  "qnext (emit e st) = qnext st" "queue (emit e st) = queue st"
  "nodes (emit e st) = nodes st" "handlers (emit e st) = handlers st"
  "writes (emit e st) = writes st" "docWrite (emit e st) = docWrite st"
  "docWriteln (emit e st) = docWriteln st" "document_write (emit e st) = document_write st"
  "document_writeln (emit e st) = document_writeln st" "scripts (emit e st) = scripts st"
  "trace (emit e st) = trace st @ [e]" "root (emit e st) = root st"
  "DOMContentLoaded (emit e st) = DOMContentLoaded st" "listening (emit e st) = listening st"
  by (simp_all add: emit_def)

lemma call_complete_queue [simp]:
  "qnext (snd (call_complete opts s st)) = qnext st"
  "queue (snd (call_complete opts s st)) = queue st"
  by (simp_all add: call_complete_def split: option.splits)

lemma sync_callbacks_queue [simp]:
  "qnext (snd (sync_callbacks opts s st)) = qnext st"
  "queue (snd (sync_callbacks opts s st)) = queue st"
  by (simp_all add: sync_callbacks_def call_loaded_plain_def split: option.splits outcome.splits)

lemma clear_id_queue [simp]:
  "qnext (clear_id r st) = qnext st" "queue (clear_id r st) = queue st"
  by (simp_all add: clear_id_def)

lemma restoreDocWrites_queue [simp]:
  "qnext (restoreDocWrites st) = qnext st" "queue (restoreDocWrites st) = queue st"
  by (simp_all add: restoreDocWrites_def)

lemma overrideDocWrites_queue [simp]:
  "qnext (overrideDocWrites st) = qnext st" "queue (overrideDocWrites st) = queue st"
  by (simp_all add: overrideDocWrites_def)

section \<open>The sequential scheduler\<close>

text \<open>
  \<^verbatim>\<open>loadScript\<close> calls its \<^verbatim>\<open>endFunction\<close>; the one of the scheduler restores the document's
  write functions, drops the buffer and calls \<^verbatim>\<open>yieldNext\<close>, which calls
  \<^verbatim>\<open>loadAndYieldNext\<close> on the next request, which calls \<^verbatim>\<open>loadScript\<close>. The value
  \<^verbatim>\<open>yieldNext\<close> returns is used by none of its callers and is left out.

  In \<^verbatim>\<open>loadScript\<close>, the \<^verbatim>\<open>finally\<close> block of the synchronous mode raises on
  \<^verbatim>\<open>$script.id = null\<close> when no element has the id; an exception of the \<^verbatim>\<open>finally\<close> block
  replaces the one of the \<^verbatim>\<open>try\<close> block.
\<close>

function loadScript :: "options \<Rightarrow> endFunction \<Rightarrow> state \<Rightarrow> exn option \<times> state"
  and call_endFunction :: "endFunction \<Rightarrow> state \<Rightarrow> exn option \<times> state"
  and yieldNext :: "state \<Rightarrow> exn option \<times> state"
  and loadAndYieldNext :: "options \<Rightarrow> state \<Rightarrow> exn option \<times> state"
where
  "loadScript opts ef st =
     (if truthy (opt_defer opts) then load_deferred opts ef (emit (LoadScript opts) st)
      else
        (let s = getElementById (jsstr (opt_id opts)) (emit (LoadScript opts) st);
             t = sync_callbacks opts s (emit (LoadScript opts) st)
         in case s of
              None \<Rightarrow> (Some TypeError, snd t)
            | Some r \<Rightarrow>
                (let f = call_endFunction ef (emit (EndFunction opts) (clear_id r (snd t)))
                 in (if fst f = None then fst t else fst f, snd f))))"
| "call_endFunction ImmediateEnd st = (None, (restoreDocWrites st)\<lparr>writes := None\<rparr>)"
| "call_endFunction ScheduledEnd st = yieldNext ((restoreDocWrites st)\<lparr>writes := None\<rparr>)"
| "yieldNext st =
     (if qnext st < length (queue st)
      then loadAndYieldNext (queue st ! qnext st) (st\<lparr>qnext := qnext st + 1\<rparr>)
      else (None, st\<lparr>qnext := qnext st + 1\<rparr>))"
| "loadAndYieldNext opts st = loadScript opts ScheduledEnd (overrideDocWrites st)"
  by pat_completeness auto

termination
  by (relation "measure (\<lambda>x. case x of
          Inl (Inl (opts, ef, st)) \<Rightarrow> 4 * (length (queue st) - qnext st) + 3
        | Inl (Inr (ef, st)) \<Rightarrow> 4 * (length (queue st) - qnext st) + 2
        | Inr (Inl st) \<Rightarrow> 4 * (length (queue st) - qnext st) + 1
        | Inr (Inr (opts, st)) \<Rightarrow> 4 * (length (queue st) - qnext st) + 4)")
     auto

declare loadScript.simps [simp del] yieldNext.simps [simp del] loadAndYieldNext.simps [simp del]

subsection \<open>The load handler of a script element\<close>

text \<open>
  The function assigned to \<^verbatim>\<open>$script.onload\<close> and \<^verbatim>\<open>$script.onreadystatechange\<close>, called
  with the element as \<^verbatim>\<open>this\<close>; \<open>rs\<close> is the element's \<^verbatim>\<open>readyState\<close> at that moment.
  \<^verbatim>\<open>try { handleScriptLoaded(); } finally { endFunction && endFunction(); }\<close>
\<close>

definition ready :: "string option \<Rightarrow> bool" where
  "ready rs = (\<not> truthy_str rs \<or> rs = Some ''loaded'' \<or> rs = Some ''complete'')"

definition load_handler :: "nat \<Rightarrow> string option \<Rightarrow> state \<Rightarrow> exn option \<times> state" where
  "load_handler s rs st =
     (case handlers st s of
        None \<Rightarrow> (None, st)
      | Some h \<Rightarrow>
          (if \<not> h_done h \<and> ready rs then
             (let st1 = emit (HandlerBody s)
                          (st\<lparr>handlers := (handlers st)(s := Some (h\<lparr>h_done := True,
                                 h_onload := False, h_onreadystatechange := False\<rparr>))\<rparr>);
                  t = handleScriptLoaded (h_opts h) s st1;
                  f = call_endFunction (h_end h) (emit (EndFunction (h_opts h)) (snd t))
              in (if fst f = None then fst t else fst f, snd f))
           else (None, st)))"

text \<open>The host raises a signal on an element: it calls what the property holds.\<close>

definition fire_onload :: "nat \<Rightarrow> string option \<Rightarrow> state \<Rightarrow> exn option \<times> state" where
  "fire_onload s rs st =
     (case handlers st s of
        None \<Rightarrow> (None, st)
      | Some h \<Rightarrow> (if h_onload h then load_handler s rs st else (None, st)))"

definition fire_onreadystatechange :: "nat \<Rightarrow> string option \<Rightarrow> state \<Rightarrow> exn option \<times> state" where
  "fire_onreadystatechange s rs st =
     (case handlers st s of
        None \<Rightarrow> (None, st)
      | Some h \<Rightarrow> (if h_onreadystatechange h then load_handler s rs st else (None, st)))"

section \<open>The life-cycle gate\<close>

definition loadAllScripts :: "state \<Rightarrow> exn option \<times> state" where
  "loadAllScripts st =
     (case scripts st of
        None \<Rightarrow> (None, st)
      | Some ws \<Rightarrow> yieldNext (st\<lparr>queue := ws, scripts := None\<rparr>))"

text \<open>
  The listener of the document's \<^verbatim>\<open>DOMContentLoaded\<close> event (the branch of the browsers
  with \<^verbatim>\<open>addEventListener\<close>): it removes what the variable holds, which is itself unless
  the fallback has run first.
\<close>

definition DOMContentLoaded_listener :: "state \<Rightarrow> exn option \<times> state" where
  "DOMContentLoaded_listener st =
     loadAllScripts (st\<lparr>listening := (if DOMContentLoaded st then False else listening st),
                        DOMContentLoaded := False\<rparr>)"

text \<open>\<^verbatim>\<open>load\<close>, the fallback on the window's load event.\<close>

definition load :: "state \<Rightarrow> exn option \<times> state" where
  "load st =
     (if DOMContentLoaded st then loadAllScripts (st\<lparr>DOMContentLoaded := False\<rparr>)
      else (None, st))"

section \<open>The request builder\<close>

definition pick :: "'a option \<Rightarrow> 'a option \<Rightarrow> 'a option" where
  "pick a d = (case a of None \<Rightarrow> d | Some v \<Rightarrow> Some v)"

definition pick_flag :: "flag \<Rightarrow> flag \<Rightarrow> flag" where
  "pick_flag a d = (case a of Undefined \<Rightarrow> d | _ \<Rightarrow> a)"

text \<open>
  \<^verbatim>\<open>if ( defs ) for ( name in defs ) opts[name] = defs[name];\<close>
  \<^verbatim>\<open>for ( name in args ) opts[name] = args[name];\<close>
\<close>

definition merge_options :: "options option \<Rightarrow> options \<Rightarrow> options" where
  "merge_options defs a =
     (case defs of
        None \<Rightarrow> a
      | Some d \<Rightarrow>
          \<lparr> opt_src = pick (opt_src a) (opt_src d),
            opt_base = pick (opt_base a) (opt_base d),
            opt_id = pick (opt_id a) (opt_id d),
            opt_type = pick (opt_type a) (opt_type d),
            opt_charset = pick (opt_charset a) (opt_charset d),
            opt_defer = pick_flag (opt_defer a) (opt_defer d),
            opt_onLoad = pick_flag (opt_onLoad a) (opt_onLoad d),
            opt_onload = pick_flag (opt_onload a) (opt_onload d),
            opt_order = pick (opt_order a) (opt_order d),
            opt_loadingHTML = pick (opt_loadingHTML a) (opt_loadingHTML d),
            opt_loaded = pick (opt_loaded a) (opt_loaded d),
            opt_complete = pick (opt_complete a) (opt_complete d),
            opt_append = pick (opt_append a) (opt_append d) \<rparr>)"

text \<open>
  \<^verbatim>\<open>if ( opts.base && opts.src.substring(0, 4) !== 'http' )\<close>: the source is put after
  the base, a last \<^verbatim>\<open>/\<close> of the base taken off.
\<close>

definition resolve_src :: "options \<Rightarrow> options" where
  "resolve_src opts =
     (if truthy_str (opt_base opts) \<and> take 4 (jsstr (opt_src opts)) \<noteq> ''http'' then
        (let b = jsstr (opt_base opts);
             b' = (if last b = CHR ''/'' then butlast b else b)
         in opts\<lparr>opt_src := Some (b' @ ''/'' @ jsstr (opt_src opts))\<rparr>)
      else opts)"

text \<open>The deprecated \<^verbatim>\<open>onload\<close> option becomes \<^verbatim>\<open>onLoad\<close>, and \<^verbatim>\<open>defer\<close> falls back on it.\<close>

definition normalize_onLoad :: "options \<Rightarrow> options \<Rightarrow> options" where
  "normalize_onLoad a opts =
     (if not_null (opt_onload opts) then
        (if not_null (opt_onLoad opts) then
           (if not_null (opt_onload a) then opts\<lparr>opt_onLoad := opt_onload a, opt_onload := Undefined\<rparr>
            else if not_null (opt_onLoad a) then opts\<lparr>opt_onLoad := opt_onLoad a, opt_onload := Undefined\<rparr>
            else opts\<lparr>opt_onLoad := opt_onload opts, opt_onload := Undefined\<rparr>)
         else opts\<lparr>opt_onLoad := opt_onload opts, opt_onload := Undefined\<rparr>)
      else opts)"

definition default_defer :: "options \<Rightarrow> options" where
  "default_defer opts =
     (if opt_defer opts = Undefined then opts\<lparr>opt_defer := opt_onLoad opts\<rparr> else opts)"

text \<open>\<^verbatim>\<open>script._generateId\<close>\<close>

definition generateId :: "state \<Rightarrow> string \<times> state" where
  "generateId st = (''_script-'' @ string_of_nat (uid st), st\<lparr>uid := uid st + 1\<rparr>)"

definition ensure_id :: "options \<Rightarrow> state \<Rightarrow> options \<times> state" where
  "ensure_id opts st =
     (if truthy_str (opt_id opts) then (opts, st)
      else (let g = generateId st in (opts\<lparr>opt_id := Some (fst g)\<rparr>, snd g)))"

text \<open>The first lines of \<^verbatim>\<open>script\<close>: the argument is refused, or it is an object of options.\<close>

definition check_args :: "arg \<Rightarrow> exn + options" where
  "check_args a =
     (case a of
        NoArg \<Rightarrow> Inl NoArguments
      | StrArg s \<Rightarrow> (if s = [] then Inl NoArguments else Inr (no_options\<lparr>opt_src := Some s\<rparr>))
      | ObjArg x \<Rightarrow> (if \<not> truthy_str (opt_src x) then Inl SrcRequired else Inr x))"

definition build_options :: "options \<Rightarrow> state \<Rightarrow> options \<times> state" where
  "build_options a st =
     ensure_id (default_defer (normalize_onLoad a (resolve_src (merge_options (defaults st) a)))) st"

text \<open>
  The markup \<^verbatim>\<open>script\<close> writes while the document is being built: a placeholder for a
  deferred request, a script tag otherwise.
\<close>

definition placeholder_markup :: "options \<Rightarrow> string" where
  \<open>placeholder_markup opts =
     ''<div id="'' @ jsstr (opt_id opts) @ ''"'' @
     (if truthy_str (opt_loadingHTML opts) then ''>'' @ jsstr (opt_loadingHTML opts)
      else '' style="diplay: none;">'') @
     ''</div>''\<close>

definition script_markup :: "options \<Rightarrow> string" where
  \<open>script_markup opts =
     ''<script id="'' @ jsstr (opt_id opts) @ ''" src="'' @ jsstr (opt_src opts) @ ''"></script>''\<close>

text \<open>
  What the host's parser does with that markup: one element with the id, at the place
  the parser has reached, and the pieces of its content under it.
\<close>

definition parse_element :: "node \<Rightarrow> string \<Rightarrow> state \<Rightarrow> state" where
  "parse_element el inner st =
     (let k = length (nodes st);
          ns1 = nodes st @ [el];
          st1 = st\<lparr>nodes := appendChild (cursor st) k ns1\<rparr>
      in (if inner = [] then st1 else set_innerHTML k inner st1))"

text \<open>\<^verbatim>\<open>document.write(content)\<close>, on whatever the property is bound to.\<close>

definition write_markup :: "string \<Rightarrow> node \<Rightarrow> string \<Rightarrow> state \<Rightarrow> state" where
  "write_markup content el inner st =
     (case document_write st of
        TempDocWrite \<Rightarrow> tempDocWrite (Some content) st
      | TempDocWriteln \<Rightarrow> tempDocWriteln (Some content) st
      | _ \<Rightarrow> parse_element el inner (call_writer (document_write st) (Some content) st))"

text \<open>\<^verbatim>\<open>scripts.splice( order, 0, opts )\<close>\<close>

definition splice :: "int \<Rightarrow> 'a \<Rightarrow> 'a list \<Rightarrow> 'a list" where
  "splice k x xs =
     (let n = int (length xs);
          i = nat (if k < 0 then max (n + k) 0 else min k n)
      in take i xs @ x # drop i xs)"

definition enqueue :: "options \<Rightarrow> state \<Rightarrow> exn option \<times> state" where
  "enqueue opts st =
     (case scripts st of
        None \<Rightarrow> (Some TypeError, st)
      | Some ws \<Rightarrow>
          (None, st\<lparr>scripts := Some (case opt_order opts of
                                         None \<Rightarrow> ws @ [opts]
                                       | Some k \<Rightarrow> splice k opts ws)\<rparr>))"

text \<open>The branch of \<^verbatim>\<open>script\<close> taken while the document is being built.\<close>

definition script_building :: "options \<Rightarrow> state \<Rightarrow> exn option \<times> state" where
  "script_building opts st =
     (if truthy (opt_defer opts) then
        (let opts' = (if opt_append opts = None then opts\<lparr>opt_append := Some BeforeDiv\<rparr> else opts)
         in enqueue opts'
              (write_markup (placeholder_markup opts)
                 ((new_node ''div'')\<lparr>node_id := opt_id opts\<rparr>)
                 (if truthy_str (opt_loadingHTML opts) then jsstr (opt_loadingHTML opts) else [])
                 st))
      else
        enqueue opts
          (write_markup (script_markup opts)
             ((new_node ''script'')\<lparr>node_id := opt_id opts, node_src := opt_src opts\<rparr>) [] st))"

text \<open>The branch taken once the document is ready.\<close>

definition script_ready :: "options \<Rightarrow> state \<Rightarrow> exn option \<times> state" where
  "script_ready opts st =
     (let o1 = opts\<lparr>opt_defer := Flag True\<rparr>;
          o2 = (if opt_append o1 = None then o1\<lparr>opt_append := Some ToBody\<rparr> else o1)
      in loadScript o2 ImmediateEnd (overrideDocWrites st))"

definition script :: "arg \<Rightarrow> state \<Rightarrow> exn option \<times> state" where
  "script a st =
     (case check_args a of
        Inl e \<Rightarrow> (Some e, st)
      | Inr x \<Rightarrow>
          (let b = build_options x st in
           if DOMContentLoaded (snd b) then script_building (fst b) (snd b)
           else script_ready (fst b) (snd b)))"

section \<open>The host\<close>

text \<open>What the page and the browser do to the loader, one step at a time.\<close>

datatype host_event =
    Call arg                              \<comment> \<open>the page calls \<^verbatim>\<open>script(args)\<close>\<close>
  | DomReady                              \<comment> \<open>the document's \<^verbatim>\<open>DOMContentLoaded\<close> event\<close>
  | WindowLoad                            \<comment> \<open>the window's \<^verbatim>\<open>load\<close> event\<close>
  | OnLoad nat "string option"            \<comment> \<open>the \<^verbatim>\<open>load\<close> event of an element\<close>
  | OnReadyStateChange nat "string option"
  | Write "string option"                 \<comment> \<open>running code calls \<^verbatim>\<open>document.write\<close>\<close>
  | Writeln "string option"

definition dispatch :: "host_event \<Rightarrow> state \<Rightarrow> exn option \<times> state" where
  "dispatch ev st =
     (case ev of
        Call a \<Rightarrow> script a st
      | DomReady \<Rightarrow> (if listening st then DOMContentLoaded_listener st else (None, st))
      | WindowLoad \<Rightarrow> load st
      | OnLoad s rs \<Rightarrow> fire_onload s rs st
      | OnReadyStateChange s rs \<Rightarrow> fire_onreadystatechange s rs st
      | Write a \<Rightarrow> (None, document_write_call a st)
      | Writeln a \<Rightarrow> (None, document_writeln_call a st))"

text \<open>An exception that reaches the host ends the step; the state stays as it was left.\<close>

definition run :: "host_event list \<Rightarrow> state \<Rightarrow> state" where
  "run evs st = fold (\<lambda>ev s. snd (dispatch ev s)) evs st"

text \<open>
  The state when the file has been evaluated in a browser with \<^verbatim>\<open>addEventListener\<close>: a
  document with a body that the parser is inside, nothing queued, the default type.
\<close>

definition initial_state :: "(string \<Rightarrow> string list) \<Rightarrow> state" where
  "initial_state parse =
     \<lparr> writes = None, docWrite = None, docWriteln = None,
       document_write = NativeWrite, document_writeln = NativeWriteln,
       scripts = Some [], queue = [], qnext = 0,
       DOMContentLoaded = True, listening = True, uid = 0,
       defaults = Some (no_options\<lparr>opt_type := Some ''text/javascript''\<rparr>),
       nodes = [(new_node ''html'')\<lparr>childNodes := [1]\<rparr>,
                (new_node ''body'')\<lparr>parentNode := Some 0\<rparr>],
       root = 0, cursor = 1, parseHTML = parse,
       handlers = (\<lambda>s. None), written = [], trace = [] \<rparr>"

section \<open>A page to run the loader on\<close>

text \<open>A parser that takes any non-empty markup for one piece, and the page it belongs to.\<close>

definition parse_whole :: "string \<Rightarrow> string list" where
  "parse_whole s = (if s = [] then [] else [s])"

definition page :: state where
  "page = initial_state parse_whole"

text \<open>The capture buffer as a list: absent and empty are the same list.\<close>

definition buffer :: "state \<Rightarrow> string list" where
  "buffer st = (case writes st of None \<Rightarrow> [] | Some w \<Rightarrow> w)"

text \<open>The two exceptions \<^verbatim>\<open>script\<close> throws on its argument.\<close>

definition invalid_request :: "exn option \<Rightarrow> bool" where
  "invalid_request e = (e = Some NoArguments \<or> e = Some SrcRequired)"

section \<open>The capturing stand-ins\<close>

lemma tempDocWrite_binding [simp]:
  "document_write (tempDocWrite a st) = document_write st"
  "document_writeln (tempDocWrite a st) = document_writeln st"
  by (simp_all add: tempDocWrite_def)

lemma truthy_jsstr: "truthy_str a \<Longrightarrow> jsstr a \<noteq> []"
  by (cases a) auto

lemma captured_writes:
  "document_write st = TempDocWrite \<Longrightarrow>
   writes (fold document_write_call as st) =
     (if filter truthy_str as = [] then writes st
      else Some (buffer st @ map jsstr (filter truthy_str as)))"
proof (induction as arbitrary: st)
  case Nil
  then show ?case by simp
next
  case (Cons a as)
  have b: "document_write (document_write_call a st) = TempDocWrite"
    using Cons.prems by (simp add: document_write_call_def call_writer_def)
  show ?case
    using Cons.prems Cons.IH [OF b]
    by (auto simp: document_write_call_def call_writer_def tempDocWrite_def buffer_def)
qed

text \<open>
  C9. While the interceptor is active, \<^verbatim>\<open>document.write\<close> with no argument or with the
  empty string changes nothing: the buffer gets no entry. \<^verbatim>\<open>document.writeln\<close> buffers its
  argument with a newline after it. After any sequence of writes the buffer holds the
  truthy arguments, in order, after what it held before, so no empty fragment is ever
  in the buffer that \<^verbatim>\<open>loaded\<close> receives and that is replayed.
\<close>

theorem capture_discards_falsy:
  assumes "document_write st = TempDocWrite" and "document_writeln st = TempDocWriteln"
  shows "document_write_call None st = st
       \<and> document_write_call (Some []) st = st
       \<and> writes (document_writeln_call (Some s) st) = Some (buffer st @ [s @ [CHR 0x0A]])
       \<and> writes (fold document_write_call as st) =
           (if filter truthy_str as = [] then writes st
            else Some (buffer st @ map jsstr (filter truthy_str as)))
       \<and> [] \<notin> set (map jsstr (filter truthy_str as))"
proof -
  have 1: "document_write_call None st = st" "document_write_call (Some []) st = st"
    using assms by (simp_all add: document_write_call_def call_writer_def tempDocWrite_def)
  have 2: "writes (document_writeln_call (Some s) st) = Some (buffer st @ [s @ [CHR 0x0A]])"
    using assms
    by (simp add: document_writeln_call_def call_writer_def tempDocWriteln_def tempDocWrite_def
        buffer_def)
  have 3: "[] \<notin> set (map jsstr (filter truthy_str as))"
    by (auto dest!: truthy_jsstr)
  show ?thesis using 1 2 3 captured_writes [OF assms(1)] by simp
qed

theorem capture_discards_falsy_witness:
  "document_write (overrideDocWrites page) = TempDocWrite
   \<and> document_writeln (overrideDocWrites page) = TempDocWriteln
   \<and> document_write_call None (overrideDocWrites page) = overrideDocWrites page
   \<and> document_write_call (Some []) (overrideDocWrites page) = overrideDocWrites page
   \<and> writes (document_writeln_call (Some ''x'') (overrideDocWrites page)) = Some [''x'' @ [CHR 0x0A]]
   \<and> writes (fold document_write_call [None, Some ''a'', Some [], Some ''b''] (overrideDocWrites page))
       = Some [''a'', ''b'']"
proof -
  have a: "document_write (overrideDocWrites page) = TempDocWrite"
    and b: "document_writeln (overrideDocWrites page) = TempDocWriteln"
    by (simp_all add: overrideDocWrites_def)
  have c: "buffer (overrideDocWrites page) = []"
    by (simp add: buffer_def overrideDocWrites_def page_def initial_state_def)
  show ?thesis
    using capture_discards_falsy [OF a b, of "''x''" "[None, Some ''a'', Some [], Some ''b'']"] a b c
    by (simp del: fold.simps)
qed

section \<open>The argument of \<^verbatim>\<open>script\<close>\<close>

lemma insertBefore_exn: "\<not> invalid_request (fst (insertBefore p c r ns))"
  by (simp add: insertBefore_def invalid_request_def Let_def)

lemma run_append_exn: "\<not> invalid_request (fst (run_append opts s st))"
  using insertBefore_exn
  by (auto simp: run_append_def invalid_request_def Let_def
      split: option.splits appender.splits placement.splits)

lemma enqueue_exn: "\<not> invalid_request (fst (enqueue opts st))"
  by (simp add: enqueue_def invalid_request_def split: option.splits)

lemma script_building_exn: "\<not> invalid_request (fst (script_building opts st))"
  by (simp add: script_building_def enqueue_exn Let_def)

lemma script_ready_exn: "\<not> invalid_request (fst (script_ready opts st))"
  by (simp add: script_ready_def Let_def loadScript.simps load_deferred_def run_append_exn)

lemma script_invalid_request:
  "invalid_request (fst (script a st)) \<longleftrightarrow> (\<exists>e. check_args a = Inl e)"
  using script_building_exn script_ready_exn
  by (auto simp: script_def Let_def check_args_def invalid_request_def
      split: sum.splits arg.splits if_splits)

text \<open>
  C6, as the code has it. \<^verbatim>\<open>script\<close> throws \<^verbatim>\<open>no arguments given\<close> exactly when it gets no
  argument or the empty string, and \<^verbatim>\<open>'src' is required\<close> exactly when it gets an object
  whose \<^verbatim>\<open>src\<close> is absent or empty. A string that is not empty is treated as the object
  with that \<^verbatim>\<open>src\<close> and nothing else.
\<close>

theorem script_rejects_falsy:
  "(fst (script a st) = Some NoArguments \<longleftrightarrow> a = NoArg \<or> a = StrArg [])
   \<and> (fst (script a st) = Some SrcRequired \<longleftrightarrow> (\<exists>x. a = ObjArg x \<and> \<not> truthy_str (opt_src x)))
   \<and> (s \<noteq> [] \<longrightarrow> script (StrArg s) st = script (ObjArg (no_options\<lparr>opt_src := Some s\<rparr>)) st)"
proof -
  have valid: "\<not> invalid_request (fst (script a st))" if "check_args a = Inr x" for x
    using script_invalid_request [of a st] that by simp
  have 1: "fst (script a st) = Some NoArguments \<longleftrightarrow> a = NoArg \<or> a = StrArg []"
  proof (cases "check_args a")
    case (Inl e)
    then show ?thesis
      by (auto simp: script_def check_args_def split: arg.splits if_splits)
  next
    case (Inr x)
    then show ?thesis
      using valid [OF Inr]
      by (auto simp: check_args_def invalid_request_def split: arg.splits if_splits)
  qed
  have 2: "fst (script a st) = Some SrcRequired \<longleftrightarrow> (\<exists>x. a = ObjArg x \<and> \<not> truthy_str (opt_src x))"
  proof (cases "check_args a")
    case (Inl e)
    then show ?thesis
      by (auto simp: script_def check_args_def split: arg.splits if_splits)
  next
    case (Inr x)
    then show ?thesis
      using valid [OF Inr]
      by (auto simp: check_args_def invalid_request_def split: arg.splits if_splits)
  qed
  have 3: "s \<noteq> [] \<longrightarrow> script (StrArg s) st = script (ObjArg (no_options\<lparr>opt_src := Some s\<rparr>)) st"
    by (simp add: script_def check_args_def)
  show ?thesis using 1 2 3 by blast
qed

theorem script_rejects_falsy_witness:
  "fst (script (StrArg ''a.js'') page) = None
   \<and> script (StrArg ''a.js'') page = script (ObjArg (no_options\<lparr>opt_src := Some ''a.js''\<rparr>)) page
   \<and> fst (script NoArg page) = Some NoArguments
   \<and> fst (script (ObjArg no_options) page) = Some SrcRequired"
proof -
  have "fst (script (StrArg ''a.js'') page) = None"
    by code_simp
  then show ?thesis
    using script_rejects_falsy [of NoArg page "''a.js''"]
      script_rejects_falsy [of "ObjArg no_options" page "''a.js''"]
    by (simp add: no_options_def)
qed

text \<open>The empty string is a string, and \<^verbatim>\<open>script\<close> refuses it.\<close>

theorem empty_string_rejected:
  "fst (script (StrArg []) page) = Some NoArguments"
  by (simp add: script_def check_args_def)

section \<open>The source and the placeholder of a request\<close>

lemma build_options_src:
  "opt_src (fst (build_options a st)) = opt_src (resolve_src (merge_options (defaults st) a))"
  by (simp add: build_options_def ensure_id_def default_defer_def normalize_onLoad_def Let_def)

lemma build_options_state:
  "DOMContentLoaded (snd (build_options a st)) = DOMContentLoaded st"
  "written (snd (build_options a st)) = written st"
  "document_write (snd (build_options a st)) = document_write st"
  "nodes (snd (build_options a st)) = nodes st"
  "cursor (snd (build_options a st)) = cursor st"
  "scripts (snd (build_options a st)) = scripts st"
  "trace (snd (build_options a st)) = trace st"
  "handlers (snd (build_options a st)) = handlers st"
  "qnext (snd (build_options a st)) = qnext st"
  by (simp_all add: build_options_def ensure_id_def generateId_def Let_def)

text \<open>
  C7, as the code has it. For a request whose \<^verbatim>\<open>base\<close> is not empty: a source that does not
  begin with \<^verbatim>\<open>http\<close> becomes the base, without one last \<^verbatim>\<open>/\<close> if it ends in one, then
  \<^verbatim>\<open>/\<close>, then the source; a source that begins with \<^verbatim>\<open>http\<close> stays as it is.
\<close>

theorem resolve_against_base:
  assumes "opt_base a = Some b" and "b \<noteq> []" and "opt_src a = Some src"
  shows "opt_src (fst (build_options a st)) =
           Some (if take 4 src = ''http'' then src
                 else (if last b = CHR ''/'' then butlast b else b) @ ''/'' @ src)"
  using assms
  by (simp add: build_options_src resolve_src_def merge_options_def pick_def Let_def
      split: option.splits)

theorem resolve_against_base_witness:
  "opt_src (fst (build_options
       (no_options\<lparr>opt_src := Some ''a.js'', opt_base := Some ''http://example.com/lib/''\<rparr>) page))
     = Some ''http://example.com/lib/a.js''
   \<and> opt_src (fst (build_options
       (no_options\<lparr>opt_src := Some ''http://other.com/a.js'',
                     opt_base := Some ''http://example.com/lib/''\<rparr>) page))
     = Some ''http://other.com/a.js''"
  using resolve_against_base [of "no_options\<lparr>opt_src := Some ''a.js'', opt_base := Some ''http://example.com/lib/''\<rparr>"
      "''http://example.com/lib/''" "''a.js''" page]
    resolve_against_base [of "no_options\<lparr>opt_src := Some ''http://other.com/a.js'', opt_base := Some ''http://example.com/lib/''\<rparr>"
      "''http://example.com/lib/''" "''http://other.com/a.js''" page]
  by simp

text \<open>An empty \<^verbatim>\<open>base\<close> is falsy, and the source stays as it is: no \<^verbatim>\<open>/\<close> is put before it.\<close>

theorem empty_base_ignored:
  "opt_src (fst (build_options (no_options\<lparr>opt_src := Some ''a.js'', opt_base := Some []\<rparr>) page))
     = Some ''a.js''
   \<and> opt_src (fst (build_options (no_options\<lparr>opt_src := Some ''a.js'', opt_base := Some []\<rparr>) page))
     \<noteq> Some ([] @ ''/'' @ ''a.js'')"
  by (simp add: build_options_src resolve_src_def merge_options_def pick_def no_options_def
      page_def initial_state_def)

lemma appendChild_fresh:
  "parentNode el = None \<Longrightarrow>
   appendChild p (length ns) (ns @ [el]) ! length ns =
     (if p = length ns then el\<lparr>childNodes := childNodes el @ [length ns], parentNode := Some p\<rparr>
      else el\<lparr>parentNode := Some p\<rparr>)"
  by (simp add: appendChild_def detach_def Let_def nth_append)

lemma call_writer_native:
  "written (call_writer NativeWrite a st) = written st @ [jsstr a]"
  "nodes (call_writer NativeWrite a st) = nodes st"
  "cursor (call_writer NativeWrite a st) = cursor st"
  by (simp_all add: call_writer_def)

lemma enqueue_host:
  "written (snd (enqueue opts st)) = written st" "nodes (snd (enqueue opts st)) = nodes st"
  by (simp_all add: enqueue_def split: option.splits)

text \<open>
  C10. While the document is being built, a deferred request without \<^verbatim>\<open>loadingHTML\<close> makes
  \<^verbatim>\<open>script\<close> write exactly a \<^verbatim>\<open>div\<close> with the id of the request and the style
  \<^verbatim>\<open>diplay: none;\<close>: the property name lacks its \<^verbatim>\<open>s\<close>, and the element the parser makes
  of it has the id and no \<^verbatim>\<open>display\<close> set.
\<close>

theorem default_placeholder_markup:
  assumes "check_args a = Inr x" and "DOMContentLoaded st" and "document_write st = NativeWrite"
    and "truthy (opt_defer (fst (build_options x st)))"
    and "\<not> truthy_str (opt_loadingHTML (fst (build_options x st)))"
  shows \<open>written (snd (script a st)) =
           written st @ [''<div id="'' @ jsstr (opt_id (fst (build_options x st))) @
                          ''" style="diplay: none;"></div>'']
         \<and> node_id (nodes (snd (script a st)) ! length (nodes st)) = opt_id (fst (build_options x st))
         \<and> display (nodes (snd (script a st)) ! length (nodes st)) = None\<close>
  using assms
  by (simp add: script_def script_building_def build_options_state Let_def enqueue_host
      write_markup_def parse_element_def call_writer_native placeholder_markup_def
      appendChild_fresh new_node_def)

theorem default_placeholder_markup_witness:
  \<open>written (snd (script (ObjArg (no_options\<lparr>opt_src := Some ''a.js'', opt_defer := Flag True\<rparr>)) page))
     = [''<div id="_script-0" style="diplay: none;"></div>'']\<close>
proof -
  let ?x = "no_options\<lparr>opt_src := Some ''a.js'', opt_defer := Flag True\<rparr>"
  have a: "check_args (ObjArg ?x) = Inr ?x" by (simp add: check_args_def)
  have b: "DOMContentLoaded page" "document_write page = NativeWrite" "written page = []"
    by (simp_all add: page_def initial_state_def)
  have c: "truthy (opt_defer (fst (build_options ?x page)))" by code_simp
  have d: "\<not> truthy_str (opt_loadingHTML (fst (build_options ?x page)))" by code_simp
  have e: "opt_id (fst (build_options ?x page)) = Some ''_script-0''" by code_simp
  show ?thesis
    using default_placeholder_markup [OF a b(1) b(2) c d] b(3) e by simp
qed

section \<open>What a load leaves alone\<close>

text \<open>
  The events of the trace that mark the progress of the scheduler and of the load
  handlers; the calls of the callbacks are the others.
\<close>

definition is_mark :: "event \<Rightarrow> bool" where
  "is_mark e = (case e of CallLoaded _ _ \<Rightarrow> False | CallComplete _ \<Rightarrow> False | _ \<Rightarrow> True)"

definition marks :: "event list \<Rightarrow> event list" where
  "marks tr = filter is_mark tr"

text \<open>
  Handling a loaded script, running the callbacks and moving nodes change the document,
  the buffer and the record of callback calls, and nothing the scheduler or the
  interceptor decide on. No node ever leaves the store.
\<close>

definition keeps :: "state \<Rightarrow> state \<Rightarrow> bool" where
  "keeps st st' =
     (queue st' = queue st \<and> qnext st' = qnext st \<and> handlers st' = handlers st \<and>
      scripts st' = scripts st \<and> docWrite st' = docWrite st \<and> docWriteln st' = docWriteln st \<and>
      document_write st' = document_write st \<and> document_writeln st' = document_writeln st \<and>
      marks (trace st') = marks (trace st) \<and> length (nodes st) \<le> length (nodes st'))"

lemma marks_simps [simp]:
  "marks [] = []" "marks (xs @ ys) = marks xs @ marks ys"
  "marks [LoadScript opts] = [LoadScript opts]" "marks [EndFunction opts] = [EndFunction opts]"
  "marks [HandlerBody s] = [HandlerBody s]" "marks [CallLoaded t w] = []"
  "marks [CallComplete t] = []"
  by (simp_all add: marks_def is_mark_def)

lemma keeps_refl [simp]: "keeps st st"
  by (simp add: keeps_def)

lemma keeps_trans: "keeps a b \<Longrightarrow> keeps b c \<Longrightarrow> keeps a c"
  by (simp add: keeps_def)

lemma length_detach [simp]: "length (detach c ns) = length ns"
  by (simp add: detach_def Let_def split: option.splits)

lemma length_appendChild [simp]: "length (appendChild p c ns) = length ns"
  by (simp add: appendChild_def Let_def)

lemma length_insertBefore [simp]: "length (snd (insertBefore p c r ns)) = length ns"
  by (simp add: insertBefore_def Let_def)

lemma length_removeChild [simp]: "length (snd (removeChild p c ns)) = length ns"
  by (simp add: removeChild_def)

lemma keeps_appendNode: "keeps st (snd (appendNode s c st))"
  by (simp add: appendNode_def keeps_def Let_def split: option.splits)

lemma length_fold_update:
  "length (fold (\<lambda>c ns. ns[c := f c ns]) cs ns) = length ns"
  by (induction cs arbitrary: ns) auto

lemma keeps_set_innerHTML: "keeps st (set_innerHTML d html st)"
  by (simp add: set_innerHTML_def keeps_def Let_def length_fold_update)

lemma keeps_move_children: "keeps st (snd (move_children k d s st))"
proof (induction k arbitrary: st)
  case 0
  then show ?case by (simp split: list.splits)
next
  case (Suc k)
  show ?case
  proof (cases "childNodes (nodes st ! d)")
    case Nil
    then show ?thesis by simp
  next
    case (Cons c cs)
    obtain e ns where r: "removeChild d c (nodes st) = (e, ns)" by (cases "removeChild d c (nodes st)")
    have len: "length ns = length (nodes st)"
      using length_removeChild [of d c "nodes st"] r by simp
    have k1: "keeps st (st\<lparr>nodes := ns\<rparr>)" by (simp add: keeps_def len)
    show ?thesis
    proof (cases e)
      case (Some x)
      then show ?thesis using Cons r by simp
    next
      case None
      obtain e2 st2 where a: "appendNode s c (st\<lparr>nodes := ns\<rparr>) = (e2, st2)"
        by (cases "appendNode s c (st\<lparr>nodes := ns\<rparr>)")
      have k2: "keeps st st2"
        using keeps_trans [OF k1 keeps_appendNode [of "st\<lparr>nodes := ns\<rparr>" s c]] a by simp
      show ?thesis
      proof (cases e2)
        case (Some y)
        then show ?thesis using Cons r None a k2 by simp
      next
        case None2: None
        then show ?thesis
          using Cons r None a keeps_trans [OF k2 Suc.IH [of st2]] by simp
      qed
    qed
  qed
qed

lemma keeps_call_complete: "keeps st (snd (call_complete opts t st))"
  by (simp add: call_complete_def keeps_def split: option.splits)

lemma keeps_remove_placeholder: "keeps st (snd (remove_placeholder dv st))"
  by (simp add: remove_placeholder_def keeps_def Let_def split: option.splits)

lemma keeps_finish_load: "keeps st (snd (finish_load opts s dv st))"
proof -
  obtain e st1 where r: "remove_placeholder dv st = (e, st1)" by (cases "remove_placeholder dv st")
  have k1: "keeps st st1" using keeps_remove_placeholder [of st dv] r by simp
  show ?thesis
    using r k1 keeps_trans [OF k1 keeps_call_complete [of st1 opts "Some s"]]
    by (cases e) (simp_all add: finish_load_def)
qed


lemma keeps_ensure_placeholder: "keeps st (snd (snd (ensure_placeholder dv s st)))"
proof (cases dv)
  case None
  have k1: "keeps st (st\<lparr>nodes := snd (createElement ''div'' (nodes st))\<rparr>)"
    by (simp add: keeps_def createElement_def)
  show ?thesis
    using None keeps_trans [OF k1 keeps_appendNode]
    by (simp add: ensure_placeholder_def Let_def)
next
  case (Some d)
  then show ?thesis by (simp add: ensure_placeholder_def)
qed

lemma keeps_replay: "keeps st (snd (replay d s ws st))"
proof -
  let ?st2 = "st\<lparr>nodes := (nodes st)[d := (nodes st ! d)\<lparr>display := Some ''none''\<rparr>]\<rparr>"
  have k1: "keeps st ?st2" by (simp add: keeps_def)
  have k2: "keeps st (set_innerHTML d (concat ws) ?st2)"
    using keeps_trans [OF k1 keeps_set_innerHTML] .
  show ?thesis
    using keeps_trans [OF k2 keeps_move_children]
    by (simp add: replay_def Let_def)
qed

lemma keeps_reinsert: "keeps st (snd (reinsert opts s st))"
proof (cases "writes st")
  case None
  then show ?thesis by (simp add: reinsert_def keeps_finish_load)
next
  case (Some ws)
  let ?dv = "getElementById (jsstr (opt_id opts)) st"
  obtain e d st1 where p: "ensure_placeholder ?dv s st = (e, d, st1)"
    by (cases "ensure_placeholder ?dv s st") auto
  have k1: "keeps st st1" using keeps_ensure_placeholder [of st ?dv s] p by simp
  show ?thesis
  proof (cases e)
    case (Some x)
    then show ?thesis using \<open>writes st = Some ws\<close> p k1 by (simp add: reinsert_def)
  next
    case None
    obtain e4 st4 where r: "replay d s ws st1 = (e4, st4)" by (cases "replay d s ws st1")
    have k4: "keeps st st4" using keeps_trans [OF k1 keeps_replay [of st1 d s ws]] r by simp
    show ?thesis
      using \<open>writes st = Some ws\<close> p None r k4 keeps_trans [OF k4 keeps_finish_load]
      by (cases e4) (simp_all add: reinsert_def)
  qed
qed

lemma keeps_call_loaded: "keeps st (snd (call_loaded cb t st))"
  by (simp add: call_loaded_def keeps_def)

lemma keeps_handleScriptLoaded: "keeps st (snd (handleScriptLoaded opts s st))"
proof (cases "opt_loaded opts")
  case None
  then show ?thesis by (simp add: handleScriptLoaded_def keeps_reinsert)
next
  case (Some cb)
  obtain r st1 where c: "call_loaded cb (Some s) st = (r, st1)"
    by (cases "call_loaded cb (Some s) st")
  have k1: "keeps st st1" using keeps_call_loaded [of st cb "Some s"] c by simp
  show ?thesis
    using Some c k1 keeps_trans [OF k1 keeps_reinsert]
    by (cases r) (simp_all add: handleScriptLoaded_def)
qed

lemma run_append_fields:
  "queue (snd (run_append opts s st)) = queue st"
  "qnext (snd (run_append opts s st)) = qnext st"
  "handlers (snd (run_append opts s st)) = handlers st"
  "scripts (snd (run_append opts s st)) = scripts st"
  "trace (snd (run_append opts s st)) = trace st"
  "docWrite (snd (run_append opts s st)) = docWrite st"
  "docWriteln (snd (run_append opts s st)) = docWriteln st"
  "document_write (snd (run_append opts s st)) = document_write st"
  "document_writeln (snd (run_append opts s st)) = document_writeln st"
  "writes (snd (run_append opts s st)) = writes st"
  "length (nodes (snd (run_append opts s st))) = length (nodes st)"
  by (simp_all add: run_append_def Let_def
      split: option.splits appender.splits placement.splits)

lemma load_deferred_fields:
  "queue (snd (load_deferred opts ef st)) = queue st"
  "qnext (snd (load_deferred opts ef st)) = qnext st"
  "scripts (snd (load_deferred opts ef st)) = scripts st"
  "trace (snd (load_deferred opts ef st)) = trace st"
  "docWrite (snd (load_deferred opts ef st)) = docWrite st"
  "docWriteln (snd (load_deferred opts ef st)) = docWriteln st"
  "document_write (snd (load_deferred opts ef st)) = document_write st"
  "document_writeln (snd (load_deferred opts ef st)) = document_writeln st"
  "writes (snd (load_deferred opts ef st)) = writes st"
  "length (nodes (snd (load_deferred opts ef st))) = Suc (length (nodes st))"
  "handlers (snd (load_deferred opts ef st)) =
     (handlers st)(length (nodes st) := Some \<lparr>h_opts = opts, h_end = ef, h_done = False,
        h_onload = True, h_onreadystatechange = True\<rparr>)"
  by (simp_all add: load_deferred_def Let_def run_append_fields createElement_def)

lemma keeps_sync_callbacks: "keeps st (snd (sync_callbacks opts t st))"
proof (cases "opt_loaded opts")
  case None
  then show ?thesis by (simp add: sync_callbacks_def keeps_call_complete)
next
  case (Some cb)
  have k1: "keeps st (emit (CallLoaded t None) st)" by (simp add: keeps_def)
  show ?thesis
    using Some k1 keeps_trans [OF k1 keeps_call_complete]
    by (cases "cb_return cb None") (simp_all add: sync_callbacks_def call_loaded_plain_def)
qed

lemma keeps_clear_id: "keeps st (clear_id r st)"
  by (simp add: clear_id_def keeps_def)

section \<open>The order of the loads\<close>

text \<open>
  The scheduler's part of a trace: the entries into \<^verbatim>\<open>loadScript\<close> and the calls of
  \<^verbatim>\<open>endFunction\<close>. A worklist that is loaded one request at a time leaves the two events
  of its first request, then the two of its second, and so on.
\<close>

definition is_sched :: "event \<Rightarrow> bool" where
  "is_sched e = (case e of LoadScript _ \<Rightarrow> True | EndFunction _ \<Rightarrow> True | _ \<Rightarrow> False)"

definition sched :: "event list \<Rightarrow> event list" where
  "sched tr = filter is_sched tr"

definition expected :: "options list \<Rightarrow> event list" where
  "expected ws = concat (map (\<lambda>x. [LoadScript x, EndFunction x]) ws)"

text \<open>A script element whose load handler has not run yet.\<close>

definition live :: "state \<Rightarrow> nat \<Rightarrow> bool" where
  "live st s = (case handlers st s of None \<Rightarrow> False | Some h \<Rightarrow> \<not> h_done h)"

text \<open>
  The states of a worklist \<open>q\<close> being drained, \<open>b\<close> being the scheduler's events from
  before: between two loads, and with the load of one request under way.
\<close>

definition idle :: "options list \<Rightarrow> event list \<Rightarrow> state \<Rightarrow> bool" where
  "idle q b st =
     (queue st = q \<and> (\<forall>s. \<not> live st s) \<and> sched (trace st) = b @ expected (take (qnext st) q))"

definition flight :: "options list \<Rightarrow> event list \<Rightarrow> state \<Rightarrow> bool" where
  "flight q b st =
     (queue st = q \<and> 0 < qnext st \<and> qnext st \<le> length q \<and>
      sched (trace st) = b @ expected (take (qnext st - 1) q) @ [LoadScript (q ! (qnext st - 1))] \<and>
      (\<forall>s h. handlers st s = Some h \<longrightarrow> \<not> h_done h \<longrightarrow>
             h_opts h = q ! (qnext st - 1) \<and> h_end h = ScheduledEnd) \<and>
      (\<forall>s s'. live st s \<longrightarrow> live st s' \<longrightarrow> s = s'))"

definition preload :: "options list \<Rightarrow> event list \<Rightarrow> options \<Rightarrow> state \<Rightarrow> bool" where
  "preload q b opts st =
     (queue st = q \<and> 0 < qnext st \<and> qnext st \<le> length q \<and> opts = q ! (qnext st - 1) \<and>
      (\<forall>s. \<not> live st s) \<and> sched (trace st) = b @ expected (take (qnext st - 1) q))"

lemma sched_simps [simp]:
  "sched [] = []" "sched (xs @ ys) = sched xs @ sched ys"
  "sched [LoadScript opts] = [LoadScript opts]" "sched [EndFunction opts] = [EndFunction opts]"
  "sched [HandlerBody s] = []" "sched [CallLoaded t w] = []" "sched [CallComplete t] = []"
  by (simp_all add: sched_def is_sched_def)

lemma sched_marks: "sched (marks tr) = sched tr"
  by (induction tr) (auto simp: sched_def marks_def is_sched_def is_mark_def split: event.splits)

lemma keeps_sched: "keeps st st' \<Longrightarrow> sched (trace st') = sched (trace st)"
  by (metis keeps_def sched_marks)

lemma live_iff: "live st s \<longleftrightarrow> (\<exists>h. handlers st s = Some h \<and> \<not> h_done h)"
  by (simp add: live_def split: option.splits)

lemma live_emit [simp]: "live (emit e st) = live st"
  by (simp add: live_def fun_eq_iff)

lemma expected_Nil [simp]: "expected [] = []"
  by (simp add: expected_def)

lemma keeps_live: "keeps st st' \<Longrightarrow> live st' = live st"
  by (auto simp: keeps_def live_def fun_eq_iff)

lemma expected_take_Suc:
  "k < length q \<Longrightarrow> expected (take (Suc k) q) = expected (take k q) @ [LoadScript (q ! k), EndFunction (q ! k)]"
  by (simp add: expected_def take_Suc_conv_app_nth)

lemma expected_take_all: "length q \<le> k \<Longrightarrow> expected (take k q) = expected q"
  by simp

lemma drain:
  "ef = ScheduledEnd \<Longrightarrow> preload q b opts st \<Longrightarrow>
     idle q b (snd (loadScript opts ef st)) \<or> flight q b (snd (loadScript opts ef st))"
  "ef = ScheduledEnd \<Longrightarrow> idle q b st \<Longrightarrow>
     idle q b (snd (call_endFunction ef st)) \<or> flight q b (snd (call_endFunction ef st))"
  "idle q b st \<Longrightarrow> idle q b (snd (yieldNext st)) \<or> flight q b (snd (yieldNext st))"
  "preload q b opts st \<Longrightarrow>
     idle q b (snd (loadAndYieldNext opts st)) \<or> flight q b (snd (loadAndYieldNext opts st))"
proof (induction opts ef st and ef st and st and opts st
    rule: loadScript_call_endFunction_yieldNext_loadAndYieldNext.induct)
  case (1 opts ef st)
  let ?st0 = "emit (LoadScript opts) st"
  from "1.prems" have pre: "queue st = q" "0 < qnext st" "qnext st \<le> length q"
      "opts = q ! (qnext st - 1)" "\<And>s. \<not> live st s"
      "sched (trace st) = b @ expected (take (qnext st - 1) q)"
    by (simp_all add: preload_def)
  show ?case
  proof (cases "truthy (opt_defer opts)")
    case True
    let ?st' = "snd (load_deferred opts ef ?st0)"
    have res: "snd (loadScript opts ef st) = ?st'"
      using True by (simp add: loadScript.simps)
    have "flight q b ?st'"
      unfolding flight_def
    proof (intro conjI allI impI)
      show "queue ?st' = q" by (simp add: load_deferred_fields pre)
      show "0 < qnext ?st'" by (simp add: load_deferred_fields pre)
      show "qnext ?st' \<le> length q" by (simp add: load_deferred_fields pre)
      show "sched (trace ?st') = b @ expected (take (qnext ?st' - 1) q) @ [LoadScript (q ! (qnext ?st' - 1))]"
        using pre(4,6) by (simp add: load_deferred_fields)
    next
      fix s h assume "handlers ?st' s = Some h" "\<not> h_done h"
      then show "h_opts h = q ! (qnext ?st' - 1)" "h_end h = ScheduledEnd"
        using pre(4) pre(5) [of s] "1.prems"(1)
        by (auto simp: load_deferred_fields live_def split: if_splits option.splits)
    next
      fix s s' assume "live ?st' s" "live ?st' s'"
      then show "s = s'"
        using pre(5) [of s] pre(5) [of s']
        by (auto simp: load_deferred_fields live_def split: if_splits option.splits)
    qed
    then show ?thesis using res by simp
  next
    case False
    let ?s = "getElementById (jsstr (opt_id opts)) ?st0"
    let ?t = "sync_callbacks opts ?s ?st0"
    have k: "keeps ?st0 (snd ?t)" by (rule keeps_sync_callbacks)
    have tr: "sched (trace (snd ?t)) = b @ expected (take (qnext st - 1) q) @ [LoadScript opts]"
      using keeps_sched [OF k] pre(6) by simp
    have fields: "queue (snd ?t) = q" "qnext (snd ?t) = qnext st" "\<And>s. \<not> live (snd ?t) s"
      using k pre keeps_live [OF k] by (simp_all add: keeps_def live_def)
    show ?thesis
    proof (cases ?s)
      case None
      have res: "snd (loadScript opts ef st) = snd ?t"
        using False None by (simp add: loadScript.simps Let_def)
      have "flight q b (snd ?t)"
        using fields tr pre by (auto simp: flight_def live_iff)
      then show ?thesis using res by simp
    next
      case (Some r)
      let ?mid = "emit (EndFunction opts) (clear_id r (snd ?t))"
      have res: "snd (loadScript opts ef st) = snd (call_endFunction ef ?mid)"
        using False Some by (simp add: loadScript.simps Let_def)
      have kc: "keeps (snd ?t) (clear_id r (snd ?t))" by (rule keeps_clear_id)
      have "Suc (qnext st - 1) = qnext st" using pre(2) by simp
      then have ex: "expected (take (qnext st) q) =
          expected (take (qnext st - 1) q) @ [LoadScript opts, EndFunction opts]"
        using expected_take_Suc [of "qnext st - 1" q] pre(2,3,4) by simp
      have "idle q b ?mid"
        using fields tr keeps_sched [OF kc] keeps_live [OF kc] kc ex
        by (simp add: idle_def keeps_def live_def)
      then show ?thesis
        using "1.IH" [OF False refl refl Some "1.prems"(1)] res by simp
    qed
  qed
next
  case (2 st)
  then show ?case by simp
next
  case (3 st)
  have "idle q b ((restoreDocWrites st)\<lparr>writes := None\<rparr>)"
    using "3.prems"(2) by (simp add: idle_def live_def restoreDocWrites_def)
  then show ?case using "3.IH" by simp
next
  case (4 st)
  from "4.prems" have pre: "queue st = q" "\<And>s. \<not> live st s"
      "sched (trace st) = b @ expected (take (qnext st) q)"
    by (simp_all add: idle_def)
  show ?case
  proof (cases "qnext st < length (queue st)")
    case True
    have "preload q b (queue st ! qnext st) (st\<lparr>qnext := qnext st + 1\<rparr>)"
      using True pre by (simp add: preload_def live_def)
    then show ?thesis
      using "4.IH" [OF True] True by (simp add: yieldNext.simps)
  next
    case False
    have "idle q b (st\<lparr>qnext := qnext st + 1\<rparr>)"
      using False pre by (simp add: idle_def live_def)
    then show ?thesis using False by (simp add: yieldNext.simps)
  qed
next
  case (5 opts st)
  have "preload q b opts (overrideDocWrites st)"
    using "5.prems" by (simp add: preload_def live_def overrideDocWrites_def)
  then show ?case using "5.IH" by (simp add: loadAndYieldNext.simps)
qed


text \<open>
  What the scheduler leaves alone: the worklist that is still to be started, the
  handlers of the script elements that exist, and the record of handler bodies run.
\<close>

definition is_body :: "nat \<Rightarrow> event \<Rightarrow> bool" where
  "is_body s e = (case e of HandlerBody x \<Rightarrow> x = s | _ \<Rightarrow> False)"

definition frame :: "state \<Rightarrow> state \<Rightarrow> bool" where
  "frame st st' =
     (scripts st' = scripts st \<and> length (nodes st) \<le> length (nodes st') \<and>
      (\<forall>s<length (nodes st). handlers st' s = handlers st s) \<and>
      (\<forall>s. filter (is_body s) (trace st') = filter (is_body s) (trace st)))"

lemma frame_refl [simp]: "frame st st"
  by (simp add: frame_def)

lemma frame_trans: "frame a b \<Longrightarrow> frame b c \<Longrightarrow> frame a c"
  by (auto simp: frame_def)

lemma is_body_mark: "is_body s e \<Longrightarrow> is_mark e"
  by (auto simp: is_body_def is_mark_def split: event.splits)

lemma bodies_marks: "filter (is_body s) (marks tr) = filter (is_body s) tr"
  by (induction tr) (auto simp: marks_def dest: is_body_mark)

lemma keeps_frame: "keeps st st' \<Longrightarrow> frame st st'"
  unfolding frame_def keeps_def
  by (metis bodies_marks)

lemma frame_emit [simp]:
  "frame st (emit (LoadScript x) st)" "frame st (emit (EndFunction x) st)"
  by (simp_all add: frame_def is_body_def)

lemma drain_frame:
  "frame st (snd (loadScript opts ef st))"
  "frame st (snd (call_endFunction ef st))"
  "frame st (snd (yieldNext st))"
  "frame st (snd (loadAndYieldNext opts st))"
proof (induction opts ef st and ef st and st and opts st
    rule: loadScript_call_endFunction_yieldNext_loadAndYieldNext.induct)
  case (1 opts ef st)
  let ?st0 = "emit (LoadScript opts) st"
  show ?case
  proof (cases "truthy (opt_defer opts)")
    case True
    have "frame ?st0 (snd (load_deferred opts ef ?st0))"
      by (simp add: frame_def load_deferred_fields)
    then show ?thesis
      using True frame_trans [OF frame_emit(1)] by (simp add: loadScript.simps)
  next
    case False
    let ?s = "getElementById (jsstr (opt_id opts)) ?st0"
    let ?t = "sync_callbacks opts ?s ?st0"
    have f1: "frame st (snd ?t)"
      using frame_trans [OF frame_emit(1) keeps_frame [OF keeps_sync_callbacks]] .
    show ?thesis
    proof (cases ?s)
      case None
      then show ?thesis using False f1 by (simp add: loadScript.simps Let_def)
    next
      case (Some r)
      let ?mid = "emit (EndFunction opts) (clear_id r (snd ?t))"
      have f2: "frame st ?mid"
        using frame_trans [OF frame_trans [OF f1 keeps_frame [OF keeps_clear_id]] frame_emit(2)] .
      show ?thesis
        using False Some frame_trans [OF f2 "1.IH" [OF False refl refl Some]]
        by (simp add: loadScript.simps Let_def)
    qed
  qed
next
  case (2 st)
  show ?case by (simp add: frame_def restoreDocWrites_def)
next
  case (3 st)
  have "frame st ((restoreDocWrites st)\<lparr>writes := None\<rparr>)"
    by (simp add: frame_def restoreDocWrites_def)
  then show ?case using frame_trans "3.IH" by simp
next
  case (4 st)
  have f: "frame st (st\<lparr>qnext := qnext st + 1\<rparr>)" by (simp add: frame_def)
  show ?case
  proof (cases "qnext st < length (queue st)")
    case True
    then show ?thesis
      using frame_trans [OF f "4.IH" [OF True]] by (simp add: yieldNext.simps)
  next
    case False
    then show ?thesis using f by (simp add: yieldNext.simps)
  qed
next
  case (5 opts st)
  have "frame st (overrideDocWrites st)" by (simp add: frame_def overrideDocWrites_def)
  then show ?case using frame_trans "5.IH" by (simp add: loadAndYieldNext.simps)
qed

text \<open>Before the ready transition, and after it.\<close>

definition waiting :: "options list \<Rightarrow> event list \<Rightarrow> state \<Rightarrow> bool" where
  "waiting ws b st =
     (scripts st = Some ws \<and> qnext st = 0 \<and> (\<forall>s. \<not> live st s) \<and> sched (trace st) = b)"

definition draining :: "options list \<Rightarrow> event list \<Rightarrow> state \<Rightarrow> bool" where
  "draining ws b st = (scripts st = None \<and> (idle ws b st \<or> flight ws b st))"

lemma load_handler_not_live: "\<not> live st s \<Longrightarrow> load_handler s rs st = (None, st)"
  by (auto simp: load_handler_def live_iff split: option.splits)

lemma load_handler_idle: "idle q b st \<Longrightarrow> load_handler s rs st = (None, st)"
  by (simp add: idle_def load_handler_not_live)

lemma load_handler_flight:
  assumes "flight q b st" and "scripts st = None"
  shows "draining q b (snd (load_handler s rs st))"
proof (cases "live st s \<and> ready rs")
  case False
  then have "load_handler s rs st = (None, st)"
    by (auto simp: load_handler_def live_iff split: option.splits)
  then show ?thesis using assms by (simp add: draining_def)
next
  case True
  then obtain h where h: "handlers st s = Some h" "\<not> h_done h" by (auto simp: live_iff)
  from assms(1) have fl: "queue st = q" "0 < qnext st" "qnext st \<le> length q"
      "sched (trace st) = b @ expected (take (qnext st - 1) q) @ [LoadScript (q ! (qnext st - 1))]"
      "\<And>s'. live st s' \<Longrightarrow> s' = s"
    using True by (auto simp: flight_def)
  from assms(1) h have hh: "h_opts h = q ! (qnext st - 1)" "h_end h = ScheduledEnd"
    by (auto simp: flight_def)
  let ?h' = "h\<lparr>h_done := True, h_onload := False, h_onreadystatechange := False\<rparr>"
  let ?st1 = "emit (HandlerBody s) (st\<lparr>handlers := (handlers st)(s := Some ?h')\<rparr>)"
  let ?t = "handleScriptLoaded (h_opts h) s ?st1"
  let ?mid = "emit (EndFunction (h_opts h)) (snd ?t)"
  have res: "snd (load_handler s rs st) = snd (call_endFunction ScheduledEnd ?mid)"
    using True h hh by (simp add: load_handler_def Let_def)
  have k: "keeps ?st1 (snd ?t)" by (rule keeps_handleScriptLoaded)
  have nl: "\<not> live ?st1 s'" for s'
    using fl(5) [of s'] by (auto simp: live_iff)
  have "Suc (qnext st - 1) = qnext st" using fl(2) by simp
  then have ex: "expected (take (qnext st) q) =
      expected (take (qnext st - 1) q) @ [LoadScript (h_opts h), EndFunction (h_opts h)]"
    using expected_take_Suc [of "qnext st - 1" q] fl(2,3) hh(1) by simp
  have "idle q b ?mid"
    unfolding idle_def
  proof (intro conjI allI)
    show "queue ?mid = q" using k fl(1) by (simp add: keeps_def)
    show "\<not> live ?mid s'" for s'
      using keeps_live [OF k] nl [of s'] by simp
    have "qnext ?mid = qnext st" using k by (simp add: keeps_def)
    then show "sched (trace ?mid) = b @ expected (take (qnext ?mid) q)"
      using keeps_sched [OF k] fl(4) hh(1) ex by simp
  qed
  then have inv: "idle q b (snd (load_handler s rs st)) \<or> flight q b (snd (load_handler s rs st))"
    using drain(2) [OF refl, of q b ?mid] res by simp
  have "frame ?mid (snd (call_endFunction ScheduledEnd ?mid))" by (rule drain_frame(2))
  then have "scripts (snd (load_handler s rs st)) = scripts ?mid"
    using res by (simp add: frame_def)
  also have "\<dots> = None" using k assms(2) by (simp add: keeps_def)
  finally show ?thesis using inv by (simp add: draining_def)
qed

lemma load_handler_inv:
  "waiting ws b st \<or> draining ws b st \<Longrightarrow>
   waiting ws b (snd (load_handler s rs st)) \<or> draining ws b (snd (load_handler s rs st))"
  using load_handler_not_live [of st s rs] load_handler_idle [of ws b st s rs]
    load_handler_flight [of ws b st s rs]
  by (auto simp: waiting_def draining_def)

lemma loadAllScripts_inv:
  assumes "waiting ws b st \<or> draining ws b st"
  shows "draining ws b (snd (loadAllScripts st))"
proof (cases "scripts st")
  case None
  then show ?thesis using assms by (simp add: loadAllScripts_def waiting_def)
next
  case (Some xs)
  then have w: "waiting ws b st" and xs: "xs = ws" using assms by (auto simp: waiting_def draining_def)
  let ?st1 = "st\<lparr>queue := ws, scripts := None\<rparr>"
  have "idle ws b ?st1" using w by (simp add: idle_def waiting_def live_def)
  then have inv: "idle ws b (snd (yieldNext ?st1)) \<or> flight ws b (snd (yieldNext ?st1))"
    by (rule drain(3))
  have "scripts (snd (yieldNext ?st1)) = None"
    using drain_frame(3) [of ?st1] by (simp add: frame_def)
  then show ?thesis using Some xs inv by (simp add: loadAllScripts_def draining_def)
qed

definition is_call :: "host_event \<Rightarrow> bool" where
  "is_call ev = (case ev of Call _ \<Rightarrow> True | _ \<Rightarrow> False)"

lemma flags_inv:
  "waiting ws b (st\<lparr>DOMContentLoaded := x\<rparr>) = waiting ws b st"
  "draining ws b (st\<lparr>DOMContentLoaded := x\<rparr>) = draining ws b st"
  "waiting ws b (st\<lparr>listening := y, DOMContentLoaded := x\<rparr>) = waiting ws b st"
  "draining ws b (st\<lparr>listening := y, DOMContentLoaded := x\<rparr>) = draining ws b st"
  "waiting ws b (st\<lparr>listening := y\<rparr>) = waiting ws b st"
  "draining ws b (st\<lparr>listening := y\<rparr>) = draining ws b st"
  by (simp_all add: waiting_def draining_def idle_def flight_def live_def)

lemma call_writer_inv:
  "waiting ws b (call_writer w a st) = waiting ws b st"
  "draining ws b (call_writer w a st) = draining ws b st"
  by (simp_all add: call_writer_def tempDocWriteln_def tempDocWrite_def waiting_def draining_def
      idle_def flight_def live_def split: writer.splits)

lemma dispatch_inv:
  assumes "\<not> is_call ev" and "waiting ws b st \<or> draining ws b st"
  shows "waiting ws b (snd (dispatch ev st)) \<or> draining ws b (snd (dispatch ev st))"
proof (cases ev)
  case (Call a)
  then show ?thesis using assms(1) by (simp add: is_call_def)
next
  case DomReady
  show ?thesis
  proof (cases "listening st")
    case True
    then show ?thesis
      using DomReady loadAllScripts_inv [of ws b
          "st\<lparr>listening := (if DOMContentLoaded st then False else listening st),
              DOMContentLoaded := False\<rparr>"] assms(2)
      by (simp add: dispatch_def DOMContentLoaded_listener_def flags_inv split del: if_split)
  next
    case False
    then show ?thesis using DomReady assms(2) by (simp add: dispatch_def)
  qed
next
  case WindowLoad
  then show ?thesis
    using loadAllScripts_inv [of ws b "st\<lparr>DOMContentLoaded := False\<rparr>"] assms(2)
    by (simp add: dispatch_def load_def flags_inv)
next
  case (OnLoad s rs)
  then show ?thesis
    using load_handler_inv [OF assms(2), of s rs] assms(2)
    by (simp add: dispatch_def fire_onload_def split: option.splits)
next
  case (OnReadyStateChange s rs)
  then show ?thesis
    using load_handler_inv [OF assms(2), of s rs] assms(2)
    by (simp add: dispatch_def fire_onreadystatechange_def split: option.splits)
next
  case (Write a)
  then show ?thesis
    using assms(2) by (simp add: dispatch_def document_write_call_def call_writer_inv)
next
  case (Writeln a)
  then show ?thesis
    using assms(2) by (simp add: dispatch_def document_writeln_call_def call_writer_inv)
qed

lemma run_inv:
  "list_all (\<lambda>ev. \<not> is_call ev) evs \<Longrightarrow> waiting ws b st \<or> draining ws b st \<Longrightarrow>
   waiting ws b (run evs st) \<or> draining ws b (run evs st)"
proof (induction evs arbitrary: st)
  case Nil
  then show ?case by (simp add: run_def)
next
  case (Cons ev evs)
  have "waiting ws b (snd (dispatch ev st)) \<or> draining ws b (snd (dispatch ev st))"
    using Cons.prems dispatch_inv [of ev ws b st] by simp
  then show ?case using Cons.IH [of "snd (dispatch ev st)"] Cons.prems(1) by (simp add: run_def)
qed

lemma expected_append: "expected (xs @ ys) = expected xs @ expected ys"
  by (simp add: expected_def)

lemma inv_prefix:
  assumes "waiting ws b st \<or> draining ws b st"
  shows "prefix (sched (trace st)) (b @ expected ws)"
proof -
  consider (w) "waiting ws b st" | (i) "idle ws b st" | (f) "flight ws b st"
    using assms by (auto simp: draining_def)
  then show ?thesis
  proof cases
    case w
    then show ?thesis by (simp add: waiting_def)
  next
    case i
    have "expected ws = expected (take (qnext st) ws) @ expected (drop (qnext st) ws)"
      using expected_append [of "take (qnext st) ws" "drop (qnext st) ws"] by simp
    then show ?thesis using i by (metis idle_def prefixI append.assoc)
  next
    case f
    let ?k = "qnext st - 1"
    from f have k: "?k < length ws" and
      tr: "sched (trace st) = b @ expected (take ?k ws) @ [LoadScript (ws ! ?k)]"
      by (auto simp: flight_def)
    have "ws = take ?k ws @ ws ! ?k # drop (Suc ?k) ws"
      using k by (simp add: id_take_nth_drop)
    then have "expected ws = expected (take ?k ws) @ [LoadScript (ws ! ?k)] @
        ([EndFunction (ws ! ?k)] @ expected (drop (Suc ?k) ws))"
      using expected_append [of "take ?k ws" "ws ! ?k # drop (Suc ?k) ws"]
      by (simp add: expected_def)
    then show ?thesis using tr by (metis prefixI append.assoc)
  qed
qed

text \<open>The pending worklist of a state in which the document is still being built.\<close>

definition worklist :: "state \<Rightarrow> options list" where
  "worklist st = (case scripts st of None \<Rightarrow> [] | Some ws \<Rightarrow> ws)"

definition building :: "state \<Rightarrow> bool" where
  "building st = (case scripts st of None \<Rightarrow> False | Some ws \<Rightarrow> qnext st = 0)"

text \<open>
  C2. Take any state before the ready transition, with its worklist and no load under
  way, and let the host do anything but call \<^verbatim>\<open>script\<close>: raise ready signals of the
  document and of the window, raise load signals on any element in any state and any
  number of times, run code that writes. Then the entries into \<^verbatim>\<open>loadScript\<close> and the
  completion signals are, at every moment, a beginning of: enter for the first request,
  completion of the first, enter for the second, completion of the second, and so on in
  worklist order. So a request is entered only right after the completion signal of the
  one before it, and no two loads overlap.
\<close>

theorem loads_in_worklist_order:
  assumes "building st" and "\<forall>s. \<not> live st s" and "list_all (\<lambda>ev. \<not> is_call ev) evs"
  shows "prefix (sched (trace (run evs st))) (sched (trace st) @ expected (worklist st))"
proof -
  have "waiting (worklist st) (sched (trace st)) st"
    using assms(1,2) by (auto simp: building_def waiting_def worklist_def split: option.splits)
  then show ?thesis
    using inv_prefix [OF run_inv [OF assms(3)], of "worklist st" "sched (trace st)" st] by simp
qed

section \<open>Requests made while the document is being built\<close>

text \<open>A short name for each event, to read a trace by.\<close>

definition label :: "event \<Rightarrow> string \<times> string option" where
  "label e =
     (case e of
        LoadScript x \<Rightarrow> (''load'', opt_src x)
      | EndFunction x \<Rightarrow> (''end'', opt_src x)
      | HandlerBody s \<Rightarrow> (''body'', None)
      | CallLoaded t w \<Rightarrow> (''loaded'', None)
      | CallComplete t \<Rightarrow> (''complete'', None))"

text \<open>
  The request \<^verbatim>\<open>script\<close> puts on the worklist for an argument object: the built options,
  with the default \<^verbatim>\<open>append\<close> of a deferred request.
\<close>

definition enqueued :: "options \<Rightarrow> state \<Rightarrow> options" where
  "enqueued x st =
     (let r = fst (build_options x st)
      in if truthy (opt_defer r) \<and> opt_append r = None then r\<lparr>opt_append := Some BeforeDiv\<rparr> else r)"

lemma set_innerHTML_fields:
  "handlers (set_innerHTML d html st) = handlers st" "trace (set_innerHTML d html st) = trace st"
  "qnext (set_innerHTML d html st) = qnext st" "queue (set_innerHTML d html st) = queue st"
  "scripts (set_innerHTML d html st) = scripts st"
  "DOMContentLoaded (set_innerHTML d html st) = DOMContentLoaded st"
  by (simp_all add: set_innerHTML_def Let_def)

lemma write_markup_fields:
  "handlers (write_markup c el inner st) = handlers st" "trace (write_markup c el inner st) = trace st"
  "qnext (write_markup c el inner st) = qnext st" "queue (write_markup c el inner st) = queue st"
  "scripts (write_markup c el inner st) = scripts st"
  "DOMContentLoaded (write_markup c el inner st) = DOMContentLoaded st"
  by (simp_all add: write_markup_def parse_element_def call_writer_def tempDocWrite_def
      tempDocWriteln_def set_innerHTML_fields Let_def split: writer.splits)

lemma enqueue_fields:
  "handlers (snd (enqueue r st)) = handlers st" "trace (snd (enqueue r st)) = trace st"
  "qnext (snd (enqueue r st)) = qnext st" "queue (snd (enqueue r st)) = queue st"
  "DOMContentLoaded (snd (enqueue r st)) = DOMContentLoaded st"
  by (simp_all add: enqueue_def split: option.splits)

lemma build_options_flags:
  "queue (snd (build_options a st)) = queue st"
  by (simp add: build_options_def ensure_id_def generateId_def Let_def)

lemma script_building_fields:
  assumes "DOMContentLoaded st"
  shows "handlers (snd (script a st)) = handlers st" "trace (snd (script a st)) = trace st"
    "qnext (snd (script a st)) = qnext st" "DOMContentLoaded (snd (script a st))"
  using assms
  by (simp_all add: script_def script_building_def Let_def build_options_state
      enqueue_fields write_markup_fields split: sum.splits)

lemma script_building_scripts:
  assumes "DOMContentLoaded st" and "scripts st = Some ws" and "check_args a = Inr x"
  shows "scripts (snd (script a st)) =
           Some (case opt_order (enqueued x st) of
                   None \<Rightarrow> ws @ [enqueued x st]
                 | Some k \<Rightarrow> splice k (enqueued x st) ws)"
  using assms
  by (auto simp: script_def script_building_def Let_def build_options_state enqueue_def
      write_markup_fields enqueued_def split: option.splits)

lemma enqueued_order: "opt_order x = Some k \<Longrightarrow> opt_order (enqueued x st) = Some k"
  by (simp add: enqueued_def build_options_def ensure_id_def default_defer_def
      normalize_onLoad_def resolve_src_def merge_options_def pick_def Let_def
      split: option.splits)

text \<open>
  C5. With an empty worklist and the document still being built, \<^verbatim>\<open>script\<close> is called
  with \<^verbatim>\<open>order: 1\<close> and then with \<^verbatim>\<open>order: 0\<close>. The worklist is then the second request
  followed by the first, and whatever the host does afterwards, short of calling
  \<^verbatim>\<open>script\<close>, the scheduler's events are a beginning of: enter the request of order 0,
  its completion, enter the request of order 1, its completion. The request of order 0
  completes before the one of order 1 is even entered.
\<close>

theorem order_zero_first:
  assumes "scripts st = Some []" and "qnext st = 0" and "DOMContentLoaded st"
    and "\<forall>s. \<not> live st s"
    and "check_args a1 = Inr x1" and "opt_order x1 = Some 1"
    and "check_args a0 = Inr x0" and "opt_order x0 = Some 0"
    and "list_all (\<lambda>ev. \<not> is_call ev) evs"
  shows "scripts (snd (script a0 (snd (script a1 st)))) =
           Some [enqueued x0 (snd (script a1 st)), enqueued x1 st]
       \<and> prefix (sched (trace (run evs (snd (script a0 (snd (script a1 st)))))))
           (sched (trace st) @
            [LoadScript (enqueued x0 (snd (script a1 st))),
             EndFunction (enqueued x0 (snd (script a1 st))),
             LoadScript (enqueued x1 st), EndFunction (enqueued x1 st)])"
proof -
  let ?st1 = "snd (script a1 st)"
  let ?st2 = "snd (script a0 ?st1)"
  let ?r1 = "enqueued x1 st"
  let ?r0 = "enqueued x0 ?st1"
  have s1: "scripts ?st1 = Some [?r1]"
    using script_building_scripts [OF assms(3) assms(1) assms(5)] enqueued_order [OF assms(6), of st]
    by (simp add: splice_def)
  have d1: "DOMContentLoaded ?st1" using script_building_fields(4) [OF assms(3)] .
  have s2: "scripts ?st2 = Some [?r0, ?r1]"
    using script_building_scripts [OF d1 s1 assms(7)] enqueued_order [OF assms(8), of ?st1]
    by (simp add: splice_def)
  have f: "handlers ?st2 = handlers st" "trace ?st2 = trace st" "qnext ?st2 = 0"
    using script_building_fields [OF assms(3), of a1] script_building_fields [OF d1, of a0] assms(2)
    by simp_all
  have "waiting [?r0, ?r1] (sched (trace st)) ?st2"
    using s2 f assms(4) by (simp add: waiting_def live_def)
  then have "prefix (sched (trace (run evs ?st2))) (sched (trace st) @ expected [?r0, ?r1])"
    using inv_prefix [OF run_inv [OF assms(9)], of "[?r0, ?r1]" "sched (trace st)" ?st2] by simp
  then show ?thesis using s2 by (simp add: expected_def)
qed

text \<open>Two deferred requests, and a host that signals each load more than once.\<close>

definition req_a :: arg where
  "req_a = ObjArg (no_options\<lparr>opt_src := Some ''a.js'', opt_defer := Flag True, opt_order := Some 1\<rparr>)"

definition req_b :: arg where
  "req_b = ObjArg (no_options\<lparr>opt_src := Some ''b.js'', opt_defer := Flag True, opt_order := Some 0\<rparr>)"

definition two_loads :: "host_event list" where
  "two_loads = [DomReady, Write (Some ''<b>x</b>''), OnLoad 4 None, WindowLoad,
                OnLoad 4 None, OnReadyStateChange 6 (Some ''loading''),
                OnReadyStateChange 6 (Some ''complete''), OnLoad 6 None]"

lemma page_fields:
  "scripts page = Some []" "qnext page = 0" "DOMContentLoaded page" "\<forall>s. \<not> live page s"
  "trace page = []"
  by (simp_all add: page_def initial_state_def live_def)

theorem order_zero_first_witness:
  "map label (sched (trace (run two_loads (snd (script req_b (snd (script req_a page)))))))
     = [(''load'', Some ''b.js''), (''end'', Some ''b.js''),
        (''load'', Some ''a.js''), (''end'', Some ''a.js'')]
   \<and> prefix (sched (trace (run two_loads (snd (script req_b (snd (script req_a page)))))))
       [LoadScript (enqueued (no_options\<lparr>opt_src := Some ''b.js'', opt_defer := Flag True, opt_order := Some 0\<rparr>) (snd (script req_a page))),
        EndFunction (enqueued (no_options\<lparr>opt_src := Some ''b.js'', opt_defer := Flag True, opt_order := Some 0\<rparr>) (snd (script req_a page))),
        LoadScript (enqueued (no_options\<lparr>opt_src := Some ''a.js'', opt_defer := Flag True, opt_order := Some 1\<rparr>) page),
        EndFunction (enqueued (no_options\<lparr>opt_src := Some ''a.js'', opt_defer := Flag True, opt_order := Some 1\<rparr>) page)]"
proof -
  let ?xa = "no_options\<lparr>opt_src := Some ''a.js'', opt_defer := Flag True, opt_order := Some 1\<rparr>"
  let ?xb = "no_options\<lparr>opt_src := Some ''b.js'', opt_defer := Flag True, opt_order := Some 0\<rparr>"
  have a: "check_args req_a = Inr ?xa" "opt_order ?xa = Some 1"
    by (simp_all add: check_args_def req_a_def)
  have b: "check_args req_b = Inr ?xb" "opt_order ?xb = Some 0"
    by (simp_all add: check_args_def req_b_def)
  have e: "list_all (\<lambda>ev. \<not> is_call ev) two_loads"
    by (simp add: two_loads_def is_call_def)
  have r: "map label (sched (trace (run two_loads (snd (script req_b (snd (script req_a page)))))))
     = [(''load'', Some ''b.js''), (''end'', Some ''b.js''),
        (''load'', Some ''a.js''), (''end'', Some ''a.js'')]"
    by code_simp
  show ?thesis
    using order_zero_first [OF page_fields(1,2,3,4) a b e] r page_fields(5) by simp
qed

text \<open>
  A third request, in synchronous mode, after the two deferred ones, and a host that
  raises signals too early, twice, and between writes.
\<close>

definition req_c :: arg where
  "req_c = StrArg ''c.js''"

definition three_queued :: state where
  "three_queued = snd (script req_c (snd (script req_b (snd (script req_a page)))))"

definition three_loads :: "host_event list" where
  "three_loads = [OnLoad 4 None, DomReady, DomReady, Write (Some ''<b>x</b>''), WindowLoad,
                  OnLoad 5 None, OnLoad 5 None, Writeln (Some ''y''), OnLoad 7 None]"

theorem loads_in_worklist_order_witness:
  "building three_queued
   \<and> (\<forall>s. \<not> live three_queued s)
   \<and> list_all (\<lambda>ev. \<not> is_call ev) three_loads
   \<and> prefix (sched (trace (run three_loads three_queued)))
        (sched (trace three_queued) @ expected (worklist three_queued))
   \<and> map label (sched (trace (run three_loads three_queued)))
        = [(''load'', Some ''b.js''), (''end'', Some ''b.js''),
           (''load'', Some ''a.js''), (''end'', Some ''a.js''),
           (''load'', Some ''c.js''), (''end'', Some ''c.js'')]"
proof -
  have a: "building three_queued" by code_simp
  have d: "DOMContentLoaded (snd (script req_a page))"
    "DOMContentLoaded (snd (script req_b (snd (script req_a page))))"
    using script_building_fields(4) page_fields(3) by simp_all
  have "handlers three_queued = handlers page"
    using script_building_fields(1) [OF page_fields(3), of req_a]
      script_building_fields(1) [OF d(1), of req_b] script_building_fields(1) [OF d(2), of req_c]
    by (simp add: three_queued_def)
  then have b: "\<forall>s. \<not> live three_queued s"
    using page_fields(4) by (simp add: live_def)
  have c: "list_all (\<lambda>ev. \<not> is_call ev) three_loads"
    by (simp add: three_loads_def is_call_def)
  have r: "map label (sched (trace (run three_loads three_queued)))
        = [(''load'', Some ''b.js''), (''end'', Some ''b.js''),
           (''load'', Some ''a.js''), (''end'', Some ''a.js''),
           (''load'', Some ''c.js''), (''end'', Some ''c.js'')]"
    by code_simp
  show ?thesis
    using loads_in_worklist_order [OF a b c] a b c r by simp
qed

section \<open>One load cycle\<close>

lemma overrideDocWrites_fields:
  "nodes (overrideDocWrites st) = nodes st" "handlers (overrideDocWrites st) = handlers st"
  "docWrite st = None \<Longrightarrow> docWrite (overrideDocWrites st) = Some (document_write st)"
  "docWriteln st = None \<Longrightarrow> docWriteln (overrideDocWrites st) = Some (document_writeln st)"
  by (simp_all add: overrideDocWrites_def)

text \<open>
  C1, as the code has it. When the \<^verbatim>\<open>loaded\<close> callback of a deferred load returns
  \<^verbatim>\<open>false\<close>, \<^verbatim>\<open>handleScriptLoaded\<close> returns at once: the document is left as it was (no
  placeholder is looked up, no node is moved, the placeholder is not removed) and the
  \<^verbatim>\<open>complete\<close> callback is not called. \<^verbatim>\<open>endFunction\<close> is still called, once, right after.
\<close>

theorem veto_skips_reinsertion:
  assumes "handlers st s = Some h" and "\<not> h_done h" and "h_onload h" and "ready rs"
    and "opt_loaded (h_opts h) = Some cb" and "cb_return cb (writes st) = ReturnsFalse"
  shows "\<exists>mid. nodes mid = nodes st
           \<and> trace mid = trace st @ [HandlerBody s, CallLoaded (Some s) (writes st),
                                      EndFunction (h_opts h)]
           \<and> dispatch (OnLoad s rs) st = call_endFunction (h_end h) mid"
proof -
  let ?h' = "h\<lparr>h_done := True, h_onload := False, h_onreadystatechange := False\<rparr>"
  let ?st1 = "emit (HandlerBody s) (st\<lparr>handlers := (handlers st)(s := Some ?h')\<rparr>)"
  let ?st2 = "snd (call_loaded cb (Some s) ?st1)"
  let ?mid = "emit (EndFunction (h_opts h)) ?st2"
  have t: "handleScriptLoaded (h_opts h) s ?st1 = (None, ?st2)"
    using assms(5,6) by (simp add: handleScriptLoaded_def call_loaded_def)
  have "dispatch (OnLoad s rs) st = call_endFunction (h_end h) ?mid"
    using assms(1-4) t
    by (simp add: dispatch_def fire_onload_def load_handler_def Let_def prod_eq_iff)
  moreover have "nodes ?mid = nodes st" by (simp add: call_loaded_def)
  moreover have "trace ?mid = trace st @ [HandlerBody s, CallLoaded (Some s) (writes st),
      EndFunction (h_opts h)]"
    by (simp add: call_loaded_def)
  ultimately show ?thesis by blast
qed

text \<open>A \<^verbatim>\<open>loaded\<close> callback that returns \<^verbatim>\<open>false\<close> and leaves the buffer alone.\<close>

definition always_false :: loaded_cb where
  "always_false = \<lparr>cb_return = (\<lambda>w. ReturnsFalse), cb_rewrite = (\<lambda>w. w)\<rparr>"

definition req_veto :: arg where
  "req_veto = ObjArg (no_options\<lparr>opt_src := Some ''v.js'', opt_defer := Flag True,
     opt_loaded := Some always_false, opt_complete := Some ReturnsOther\<rparr>)"

definition veto_load :: options where
  "veto_load = no_options\<lparr>opt_src := Some ''v.js'', opt_id := Some ''v'', opt_defer := Flag True,
     opt_loaded := Some always_false, opt_complete := Some ReturnsOther,
     opt_append := Some ToBody\<rparr>"

definition veto_pending :: state where
  "veto_pending = snd (loadScript veto_load ImmediateEnd (overrideDocWrites page))"

theorem veto_skips_reinsertion_witness:
  "nodes (snd (dispatch (OnLoad 2 None) veto_pending)) = nodes veto_pending
   \<and> map label (trace (snd (dispatch (OnLoad 2 None) veto_pending)))
     = [(''load'', Some ''v.js''), (''body'', None), (''loaded'', None), (''end'', Some ''v.js'')]"
proof -
  let ?h = "\<lparr>h_opts = veto_load, h_end = ImmediateEnd, h_done = False, h_onload = True,
             h_onreadystatechange = True\<rparr>"
  have d: "truthy (opt_defer veto_load)" by (simp add: veto_load_def)
  have l: "veto_pending =
      snd (load_deferred veto_load ImmediateEnd (emit (LoadScript veto_load) (overrideDocWrites page)))"
    using d by (simp add: veto_pending_def loadScript.simps)
  have n: "length (nodes page) = 2" by (simp add: page_def initial_state_def)
  have h: "handlers veto_pending 2 = Some ?h"
    by (simp add: l load_deferred_fields overrideDocWrites_fields n)
  have t: "trace veto_pending = [LoadScript veto_load]"
    by (simp add: l load_deferred_fields overrideDocWrites_def page_fields)
  have c: "opt_loaded (h_opts ?h) = Some always_false"
    "cb_return always_false (writes veto_pending) = ReturnsFalse"
    by (simp_all add: veto_load_def always_false_def)
  have r: "ready None" by (simp add: ready_def)
  from veto_skips_reinsertion [OF h _ _ r c] obtain mid where
    m: "nodes mid = nodes veto_pending"
      "trace mid = trace veto_pending @ [HandlerBody 2, CallLoaded (Some 2) (writes veto_pending),
         EndFunction (h_opts ?h)]"
      "dispatch (OnLoad 2 None) veto_pending = call_endFunction (h_end ?h) mid"
    by auto
  have "snd (dispatch (OnLoad 2 None) veto_pending) = (restoreDocWrites mid)\<lparr>writes := None\<rparr>"
    using m(3) by simp
  then show ?thesis
    using m(1,2) t by (simp add: restoreDocWrites_def label_def veto_load_def)
qed

text \<open>
  A deferred request whose \<^verbatim>\<open>loaded\<close> returns \<^verbatim>\<open>false\<close> and that has a \<^verbatim>\<open>complete\<close>
  callback: the callback is never called.
\<close>

theorem veto_skips_complete:
  "map label (trace (run [Call req_veto, DomReady, OnLoad 3 None] page))
     = [(''load'', Some ''v.js''), (''body'', None), (''loaded'', None), (''end'', Some ''v.js'')]"
  by code_simp

text \<open>What comes after the end of a load: nothing, or the next request of the worklist.\<close>

definition resume :: "endFunction \<Rightarrow> state \<Rightarrow> exn option \<times> state" where
  "resume ef mid = (case ef of ImmediateEnd \<Rightarrow> (None, mid) | ScheduledEnd \<Rightarrow> yieldNext mid)"

definition is_write :: "host_event \<Rightarrow> bool" where
  "is_write ev = (case ev of Write _ \<Rightarrow> True | Writeln _ \<Rightarrow> True | _ \<Rightarrow> False)"

lemma call_writer_fields:
  "handlers (call_writer w a st) = handlers st" "docWrite (call_writer w a st) = docWrite st"
  "docWriteln (call_writer w a st) = docWriteln st" "trace (call_writer w a st) = trace st"
  "nodes (call_writer w a st) = nodes st"
  by (simp_all add: call_writer_def tempDocWrite_def tempDocWriteln_def split: writer.splits)

lemma dispatch_write_fields:
  assumes "is_write ev"
  shows "handlers (snd (dispatch ev st)) = handlers st" "docWrite (snd (dispatch ev st)) = docWrite st"
    "docWriteln (snd (dispatch ev st)) = docWriteln st" "trace (snd (dispatch ev st)) = trace st"
    "nodes (snd (dispatch ev st)) = nodes st"
  using assms
  by (cases ev; simp add: is_write_def dispatch_def document_write_call_def
      document_writeln_call_def call_writer_fields)+

lemma run_writes_fields:
  "list_all is_write ws \<Longrightarrow>
   handlers (run ws st) = handlers st \<and> docWrite (run ws st) = docWrite st \<and>
   docWriteln (run ws st) = docWriteln st \<and> trace (run ws st) = trace st \<and>
   nodes (run ws st) = nodes st"
proof (induction ws arbitrary: st)
  case Nil
  then show ?case by (simp add: run_def)
next
  case (Cons ev ws)
  then show ?case
    using Cons.IH [of "snd (dispatch ev st)"] dispatch_write_fields [of ev st]
    by (simp add: run_def)
qed

lemma call_endFunction_resume:
  "call_endFunction ef st = resume ef ((restoreDocWrites st)\<lparr>writes := None\<rparr>)"
  by (cases ef) (simp_all add: resume_def)

text \<open>
  C3. A load cycle starts with no interception in place: the write functions are
  overridden, \<^verbatim>\<open>loadScript\<close> puts the script element into the document, the script runs
  and writes, and the element signals that it is loaded. Whether the replay succeeds,
  \<^verbatim>\<open>loaded\<close> returns \<^verbatim>\<open>false\<close> or a callback raises, what follows the cycle starts from
  a state in which \<^verbatim>\<open>document.write\<close> and \<^verbatim>\<open>document.writeln\<close> are what they were before
  the cycle and the buffer is absent.
\<close>

theorem write_functions_restored:
  assumes "docWrite st0 = None" and "docWriteln st0 = None"
    and "truthy (opt_defer opts)" and "list_all is_write ws" and "ready rs"
  shows "\<exists>mid. document_write mid = document_write st0
           \<and> document_writeln mid = document_writeln st0
           \<and> writes mid = None \<and> docWrite mid = None \<and> docWriteln mid = None
           \<and> snd (dispatch (OnLoad (length (nodes st0)) rs)
                    (run ws (snd (loadScript opts ef (overrideDocWrites st0)))))
               = snd (resume ef mid)"
proof -
  let ?s = "length (nodes st0)"
  let ?st1 = "snd (loadScript opts ef (overrideDocWrites st0))"
  let ?st2 = "run ws ?st1"
  let ?h = "\<lparr>h_opts = opts, h_end = ef, h_done = False, h_onload = True,
             h_onreadystatechange = True\<rparr>"
  have l: "?st1 = snd (load_deferred opts ef (emit (LoadScript opts) (overrideDocWrites st0)))"
    using assms(3) by (simp add: loadScript.simps)
  have f1: "handlers ?st1 ?s = Some ?h" "docWrite ?st1 = Some (document_write st0)"
    "docWriteln ?st1 = Some (document_writeln st0)"
    using assms(1,2) by (simp_all add: l load_deferred_fields overrideDocWrites_fields)
  have f2: "handlers ?st2 ?s = Some ?h" "docWrite ?st2 = Some (document_write st0)"
    "docWriteln ?st2 = Some (document_writeln st0)"
    using run_writes_fields [OF assms(4), of ?st1] f1 by simp_all
  let ?h' = "?h\<lparr>h_done := True, h_onload := False, h_onreadystatechange := False\<rparr>"
  let ?st3 = "emit (HandlerBody ?s) (?st2\<lparr>handlers := (handlers ?st2)(?s := Some ?h')\<rparr>)"
  let ?t = "handleScriptLoaded opts ?s ?st3"
  let ?x = "emit (EndFunction opts) (snd ?t)"
  let ?mid = "(restoreDocWrites ?x)\<lparr>writes := None\<rparr>"
  have k: "keeps ?st3 (snd ?t)" by (rule keeps_handleScriptLoaded)
  have res: "snd (dispatch (OnLoad ?s rs) ?st2) = snd (call_endFunction ef ?x)"
    using f2(1) assms(5) by (simp add: dispatch_def fire_onload_def load_handler_def Let_def)
  have "docWrite ?x = Some (document_write st0)" "docWriteln ?x = Some (document_writeln st0)"
    using k f2(2,3) by (simp_all add: keeps_def)
  then have "document_write ?mid = document_write st0" "document_writeln ?mid = document_writeln st0"
    "writes ?mid = None" "docWrite ?mid = None" "docWriteln ?mid = None"
    by (simp_all add: restoreDocWrites_def)
  moreover have "snd (dispatch (OnLoad ?s rs) ?st2) = snd (resume ef ?mid)"
    using res call_endFunction_resume [of ef ?x] by simp
  ultimately show ?thesis by blast
qed

text \<open>A deferred request that goes into the body.\<close>

definition one_load :: options where
  "one_load = no_options\<lparr>opt_src := Some ''w.js'', opt_id := Some ''w'', opt_defer := Flag True,
     opt_append := Some ToBody\<rparr>"

theorem write_functions_restored_witness:
  "document_write (snd (dispatch (OnLoad 2 None) (run [Write (Some ''<p>hi</p>''), Writeln None]
       (snd (loadScript one_load ImmediateEnd (overrideDocWrites page))))))
     = NativeWrite
   \<and> document_writeln (snd (dispatch (OnLoad 2 None) (run [Write (Some ''<p>hi</p>''), Writeln None]
       (snd (loadScript one_load ImmediateEnd (overrideDocWrites page))))))
     = NativeWriteln
   \<and> writes (snd (dispatch (OnLoad 2 None) (run [Write (Some ''<p>hi</p>''), Writeln None]
       (snd (loadScript one_load ImmediateEnd (overrideDocWrites page))))))
     = None"
proof -
  have p: "docWrite page = None" "docWriteln page = None" "length (nodes page) = 2"
    "document_write page = NativeWrite" "document_writeln page = NativeWriteln"
    by (simp_all add: page_def initial_state_def)
  have o: "truthy (opt_defer one_load)" by (simp add: one_load_def)
  have w: "list_all is_write [Write (Some ''<p>hi</p>''), Writeln None]"
    by (simp add: is_write_def)
  have r: "ready None" by (simp add: ready_def)
  from write_functions_restored [OF p(1,2) o w r, of ImmediateEnd]
  show ?thesis by (auto simp: p resume_def)
qed

section \<open>The load handler runs once\<close>

text \<open>
  What the host may do to one script element while it loads: raise either signal on it,
  in any ready state, and run code that writes.
\<close>

definition signal_or_write :: "nat \<Rightarrow> host_event \<Rightarrow> bool" where
  "signal_or_write s ev =
     (case ev of
        OnLoad x rs \<Rightarrow> x = s
      | OnReadyStateChange x rs \<Rightarrow> x = s
      | Write a \<Rightarrow> True
      | Writeln a \<Rightarrow> True
      | _ \<Rightarrow> False)"

definition ready_signal :: "host_event \<Rightarrow> bool" where
  "ready_signal ev =
     (case ev of
        OnLoad x rs \<Rightarrow> ready rs
      | OnReadyStateChange x rs \<Rightarrow> ready rs
      | _ \<Rightarrow> False)"

text \<open>How often the guarded body of the handler of an element has run.\<close>

definition bodies :: "nat \<Rightarrow> state \<Rightarrow> nat" where
  "bodies s st = length (filter (is_body s) (trace st))"

definition armed :: "nat \<Rightarrow> nat \<Rightarrow> state \<Rightarrow> bool" where
  "armed s c st =
     (s < length (nodes st) \<and> bodies s st = c \<and>
      (\<exists>h. handlers st s = Some h \<and> \<not> h_done h \<and> h_onload h \<and> h_onreadystatechange h))"

definition fired :: "nat \<Rightarrow> nat \<Rightarrow> state \<Rightarrow> bool" where
  "fired s c st =
     (s < length (nodes st) \<and> bodies s st = Suc c \<and>
      (\<exists>h. handlers st s = Some h \<and> h_done h \<and> \<not> h_onload h \<and> \<not> h_onreadystatechange h))"

lemma load_handler_armed:
  assumes "armed s c st" and "ready rs"
  shows "fired s c (snd (load_handler s rs st))"
proof -
  from assms(1) obtain h where h: "handlers st s = Some h" "\<not> h_done h"
    and s: "s < length (nodes st)" and c: "bodies s st = c"
    by (auto simp: armed_def)
  let ?h' = "h\<lparr>h_done := True, h_onload := False, h_onreadystatechange := False\<rparr>"
  let ?st1 = "emit (HandlerBody s) (st\<lparr>handlers := (handlers st)(s := Some ?h')\<rparr>)"
  let ?t = "handleScriptLoaded (h_opts h) s ?st1"
  let ?mid = "emit (EndFunction (h_opts h)) (snd ?t)"
  let ?st' = "snd (call_endFunction (h_end h) ?mid)"
  have res: "snd (load_handler s rs st) = ?st'"
    using h assms(2) by (simp add: load_handler_def Let_def)
  have f1: "frame ?st1 (snd ?t)" using keeps_frame [OF keeps_handleScriptLoaded] .
  have f2: "frame ?st1 ?st'"
    using frame_trans [OF frame_trans [OF f1 frame_emit(2)] drain_frame(2)] .
  have "fired s c ?st1"
    using s c by (simp add: fired_def bodies_def is_body_def)
  then have "fired s c ?st'"
    using f2 by (auto simp: fired_def frame_def bodies_def)
  then show ?thesis using res by simp
qed

lemma dispatch_armed:
  assumes "armed s c st" and "signal_or_write s ev"
  shows "if ready_signal ev then fired s c (snd (dispatch ev st))
         else armed s c (snd (dispatch ev st))"
proof (cases ev)
  case (OnLoad x rs)
  then have x: "x = s" using assms(2) by (simp add: signal_or_write_def)
  show ?thesis
  proof (cases "ready rs")
    case True
    then show ?thesis
      using OnLoad x assms(1) load_handler_armed [OF assms(1) True]
      by (auto simp: dispatch_def fire_onload_def ready_signal_def armed_def)
  next
    case False
    then show ?thesis
      using OnLoad x assms(1)
      by (auto simp: dispatch_def fire_onload_def load_handler_def ready_signal_def armed_def)
  qed
next
  case (OnReadyStateChange x rs)
  then have x: "x = s" using assms(2) by (simp add: signal_or_write_def)
  show ?thesis
  proof (cases "ready rs")
    case True
    then show ?thesis
      using OnReadyStateChange x assms(1) load_handler_armed [OF assms(1) True]
      by (auto simp: dispatch_def fire_onreadystatechange_def ready_signal_def armed_def)
  next
    case False
    then show ?thesis
      using OnReadyStateChange x assms(1)
      by (auto simp: dispatch_def fire_onreadystatechange_def load_handler_def ready_signal_def
          armed_def)
  qed
next
  case (Write a)
  then show ?thesis
    using assms(1) dispatch_write_fields [of ev st]
    by (simp add: ready_signal_def armed_def bodies_def is_write_def)
next
  case (Writeln a)
  then show ?thesis
    using assms(1) dispatch_write_fields [of ev st]
    by (simp add: ready_signal_def armed_def bodies_def is_write_def)
qed (use assms(2) in \<open>simp_all add: signal_or_write_def\<close>)

lemma dispatch_fired:
  assumes "fired s c st" and "signal_or_write s ev"
  shows "fired s c (snd (dispatch ev st))"
proof (cases ev)
  case (OnLoad x rs)
  then show ?thesis
    using assms by (auto simp: signal_or_write_def dispatch_def fire_onload_def fired_def)
next
  case (OnReadyStateChange x rs)
  then show ?thesis
    using assms
    by (auto simp: signal_or_write_def dispatch_def fire_onreadystatechange_def fired_def)
next
  case (Write a)
  then show ?thesis
    using assms(1) dispatch_write_fields [of ev st]
    by (simp add: fired_def bodies_def is_write_def)
next
  case (Writeln a)
  then show ?thesis
    using assms(1) dispatch_write_fields [of ev st]
    by (simp add: fired_def bodies_def is_write_def)
qed (use assms(2) in \<open>simp_all add: signal_or_write_def\<close>)

lemma run_fired:
  "list_all (signal_or_write s) evs \<Longrightarrow> fired s c st \<Longrightarrow> fired s c (run evs st)"
proof (induction evs arbitrary: st)
  case Nil
  then show ?case by (simp add: run_def)
next
  case (Cons ev evs)
  then show ?case
    using dispatch_fired [of s c st ev] Cons.IH [of "snd (dispatch ev st)"]
    by (simp add: run_def)
qed

lemma run_armed:
  "list_all (signal_or_write s) evs \<Longrightarrow> armed s c st \<Longrightarrow>
   bodies s (run evs st) = c + (if list_ex ready_signal evs then 1 else 0)"
proof (induction evs arbitrary: st)
  case Nil
  then show ?case by (simp add: run_def armed_def)
next
  case (Cons ev evs)
  have r: "run (ev # evs) st = run evs (snd (dispatch ev st))" by (simp add: run_def)
  have ok: "signal_or_write s ev" "list_all (signal_or_write s) evs" using Cons.prems(1) by simp_all
  show ?case
  proof (cases "ready_signal ev")
    case True
    then have "fired s c (snd (dispatch ev st))"
      using dispatch_armed [OF Cons.prems(2) ok(1)] by simp
    then have "fired s c (run (ev # evs) st)" using run_fired [OF ok(2)] r by simp
    then show ?thesis using True by (simp add: fired_def)
  next
    case False
    then have "armed s c (snd (dispatch ev st))"
      using dispatch_armed [OF Cons.prems(2) ok(1)] by simp
    then show ?thesis using Cons.IH [OF ok(2)] r False by simp
  qed
qed

text \<open>
  C8. After \<^verbatim>\<open>loadScript\<close> has set up a deferred load, let the host raise \<^verbatim>\<open>load\<close> and
  \<^verbatim>\<open>readystatechange\<close> signals on the new script element, any number of them, in any
  order and any ready state. The guarded body of the handler runs once if one of the
  signals comes with no ready state or with \<^verbatim>\<open>loaded\<close> or \<^verbatim>\<open>complete\<close>, and it never
  runs twice.
\<close>

theorem handler_body_once:
  assumes "truthy (opt_defer opts)"
    and "list_all (signal_or_write (length (nodes st0))) evs"
  shows "bodies (length (nodes st0)) (run evs (snd (loadScript opts ef st0))) =
           bodies (length (nodes st0)) st0 + (if list_ex ready_signal evs then 1 else 0)"
proof -
  let ?s = "length (nodes st0)"
  let ?st = "snd (loadScript opts ef st0)"
  have l: "?st = snd (load_deferred opts ef (emit (LoadScript opts) st0))"
    using assms(1) by (simp add: loadScript.simps)
  have "armed ?s (bodies ?s st0) ?st"
    by (simp add: l armed_def bodies_def load_deferred_fields is_body_def)
  then show ?thesis using run_armed [OF assms(2)] by simp
qed

theorem handler_body_once_witness:
  "bodies 2 (run [OnReadyStateChange 2 (Some ''loading''), OnReadyStateChange 2 (Some ''loaded''),
                  Write (Some ''x''), OnLoad 2 None, OnReadyStateChange 2 (Some ''complete''),
                  OnLoad 2 None]
             (snd (loadScript one_load ImmediateEnd (overrideDocWrites page)))) = 1"
proof -
  let ?evs = "[OnReadyStateChange 2 (Some ''loading''), OnReadyStateChange 2 (Some ''loaded''),
                  Write (Some ''x''), OnLoad 2 None, OnReadyStateChange 2 (Some ''complete''),
                  OnLoad 2 None]"
  have n: "length (nodes (overrideDocWrites page)) = 2"
    by (simp add: overrideDocWrites_fields page_def initial_state_def)
  have o: "truthy (opt_defer one_load)" by (simp add: one_load_def)
  have e: "list_all (signal_or_write (length (nodes (overrideDocWrites page)))) ?evs"
    by (simp add: n signal_or_write_def)
  have r: "list_ex ready_signal ?evs" by (simp add: ready_signal_def ready_def)
  have b: "bodies 2 (overrideDocWrites page) = 0"
    by (simp add: bodies_def overrideDocWrites_def page_def initial_state_def)
  show ?thesis
    using handler_body_once [OF o e, of ImmediateEnd] n r b by simp
qed

section \<open>The synchronous mode\<close>

lemma find_node_Some: "find_node k P ns todo = Some r \<Longrightarrow> r < length ns \<and> P (ns ! r)"
  by (induction k P ns todo rule: find_node.induct) (auto split: if_splits)

lemma getElementById_emit [simp]: "getElementById i (emit e st) = getElementById i st"
  by (simp add: getElementById_def)

lemma call_complete_nodes: "nodes (snd (call_complete opts t st)) = nodes st"
  by (simp add: call_complete_def split: option.splits)

lemma sync_callbacks_nodes: "nodes (snd (sync_callbacks opts t st)) = nodes st"
  by (simp add: sync_callbacks_def call_loaded_plain_def call_complete_nodes
      split: option.splits outcome.splits)

lemma call_complete_trace: "prefix (trace st) (trace (snd (call_complete opts t st)))"
  by (simp add: call_complete_def split: option.splits)

lemma sync_callbacks_trace: "prefix (trace st) (trace (snd (sync_callbacks opts t st)))"
proof (cases "opt_loaded opts")
  case None
  then show ?thesis by (simp add: sync_callbacks_def call_complete_trace)
next
  case (Some cb)
  have "prefix (trace st) (trace (emit (CallLoaded t None) st))" by simp
  then show ?thesis
    using Some prefix_order.trans [OF _ call_complete_trace [of "emit (CallLoaded t None) st" opts t]]
    by (cases "cb_return cb None") (simp_all add: sync_callbacks_def call_loaded_plain_def)
qed

text \<open>The ids of the nodes of a store; moving nodes around does not change them.\<close>

definition ids :: "node list \<Rightarrow> string option list" where
  "ids ns = map node_id ns"

lemma map_update_same:
  assumes "f x = f (ns ! i)"
  shows "map f (ns[i := x]) = map f ns"
proof (cases "i < length ns")
  case True
  then show ?thesis using assms by (simp add: map_update list_update_same_conv)
next
  case False
  then show ?thesis by (simp add: list_update_beyond)
qed

lemma ids_update [simp]:
  "ids (ns[i := (ns ! i)\<lparr>childNodes := v\<rparr>]) = ids ns"
  "ids (ns[i := (ns ! i)\<lparr>parentNode := w\<rparr>]) = ids ns"
  unfolding ids_def by (rule map_update_same, simp)+

lemma ids_detach [simp]: "ids (detach c ns) = ids ns"
  by (simp add: detach_def Let_def split: option.splits)

lemma ids_appendChild [simp]: "ids (appendChild p c ns) = ids ns"
  by (simp add: appendChild_def Let_def)

lemma ids_insertBefore [simp]: "ids (snd (insertBefore p c r ns)) = ids ns"
  by (simp add: insertBefore_def Let_def)

lemma ids_run_append: "ids (nodes (snd (run_append opts s st))) = ids (nodes st)"
  by (simp add: run_append_def Let_def split: option.splits appender.splits placement.splits)

text \<open>An id that was overwritten with \<^verbatim>\<open>null\<close> stays so; the trace only grows.\<close>

definition settled :: "state \<Rightarrow> state \<Rightarrow> bool" where
  "settled st st' =
     (length (nodes st) \<le> length (nodes st') \<and> prefix (trace st) (trace st') \<and>
      (\<forall>r<length (nodes st). node_id (nodes st' ! r) = Some ''null'' \<or>
                             node_id (nodes st' ! r) = node_id (nodes st ! r)))"

lemma settled_refl [simp]: "settled st st"
  by (simp add: settled_def)

lemma settled_trans:
  assumes "settled a b" and "settled b c"
  shows "settled a c"
  unfolding settled_def
proof (intro conjI allI impI)
  show "length (nodes a) \<le> length (nodes c)"
    using assms by (simp add: settled_def)
  show "prefix (trace a) (trace c)"
    using assms prefix_order.trans by (auto simp: settled_def)
next
  fix r assume r: "r < length (nodes a)"
  then have rb: "r < length (nodes b)" using assms(1) by (simp add: settled_def)
  have 1: "node_id (nodes b ! r) = Some ''null'' \<or> node_id (nodes b ! r) = node_id (nodes a ! r)"
    using assms(1) r by (simp add: settled_def)
  have 2: "node_id (nodes c ! r) = Some ''null'' \<or> node_id (nodes c ! r) = node_id (nodes b ! r)"
    using assms(2) rb by (simp add: settled_def)
  show "node_id (nodes c ! r) = Some ''null'' \<or> node_id (nodes c ! r) = node_id (nodes a ! r)"
    using 1 2 by auto
qed

lemma settled_emit [simp]: "settled st (emit e st)"
  by (simp add: settled_def)

lemma settled_load_deferred: "settled st (snd (load_deferred opts ef st))"
proof -
  let ?s = "length (nodes st)"
  let ?c = "createElement ''script'' (nodes st)"
  obtain el where el: "load_deferred opts ef st =
      run_append opts ?s (st\<lparr>nodes := (nodes st @ [new_node ''script''])[?s := el],
        handlers := (handlers st)(?s := Some \<lparr>h_opts = opts, h_end = ef, h_done = False,
          h_onload = True, h_onreadystatechange = True\<rparr>)\<rparr>)"
    by (simp add: load_deferred_def createElement_def Let_def)
  let ?st1 = "st\<lparr>nodes := (nodes st @ [new_node ''script''])[?s := el],
        handlers := (handlers st)(?s := Some \<lparr>h_opts = opts, h_end = ef, h_done = False,
          h_onload = True, h_onreadystatechange = True\<rparr>)\<rparr>"
  let ?st2 = "snd (run_append opts ?s ?st1)"
  have i: "ids (nodes ?st2) = ids (nodes ?st1)" by (rule ids_run_append)
  have len: "length (nodes ?st2) = Suc ?s" by (simp add: run_append_fields)
  have "node_id (nodes ?st2 ! r) = node_id (nodes st ! r)" if "r < ?s" for r
  proof -
    have "node_id (nodes ?st2 ! r) = ids (nodes ?st2) ! r"
      using that len by (simp add: ids_def)
    also have "\<dots> = ids (nodes ?st1) ! r" using i by simp
    also have "\<dots> = node_id (nodes st ! r)"
      using that by (simp add: ids_def nth_append)
    finally show ?thesis .
  qed
  then show ?thesis
    using len el by (simp add: settled_def run_append_fields)
qed

lemma settled_clear_id: "settled st (clear_id r st)"
proof -
  have "node_id ((nodes st)[r := (nodes st ! r)\<lparr>node_id := Some ''null''\<rparr>] ! x) = Some ''null'' \<or>
        node_id ((nodes st)[r := (nodes st ! r)\<lparr>node_id := Some ''null''\<rparr>] ! x) = node_id (nodes st ! x)"
    if "x < length (nodes st)" for x
    using that by (cases "x = r") simp_all
  then show ?thesis by (simp add: settled_def clear_id_def)
qed

lemma settled_sync_callbacks: "settled st (snd (sync_callbacks opts t st))"
  by (simp add: settled_def sync_callbacks_nodes sync_callbacks_trace)

lemma drain_settled:
  "settled st (snd (loadScript opts ef st))"
  "settled st (snd (call_endFunction ef st))"
  "settled st (snd (yieldNext st))"
  "settled st (snd (loadAndYieldNext opts st))"
proof (induction opts ef st and ef st and st and opts st
    rule: loadScript_call_endFunction_yieldNext_loadAndYieldNext.induct)
  case (1 opts ef st)
  let ?st0 = "emit (LoadScript opts) st"
  show ?case
  proof (cases "truthy (opt_defer opts)")
    case True
    then show ?thesis
      using settled_trans [OF settled_emit settled_load_deferred] by (simp add: loadScript.simps)
  next
    case False
    let ?s = "getElementById (jsstr (opt_id opts)) ?st0"
    let ?t = "sync_callbacks opts ?s ?st0"
    have f1: "settled st (snd ?t)"
      using settled_trans [OF settled_emit settled_sync_callbacks] .
    show ?thesis
    proof (cases ?s)
      case None
      then show ?thesis using False f1 by (simp add: loadScript.simps Let_def)
    next
      case (Some r)
      let ?mid = "emit (EndFunction opts) (clear_id r (snd ?t))"
      have f2: "settled st ?mid"
        using settled_trans [OF settled_trans [OF f1 settled_clear_id] settled_emit] .
      show ?thesis
        using False Some settled_trans [OF f2 "1.IH" [OF False refl refl Some]]
        by (simp add: loadScript.simps Let_def)
    qed
  qed
next
  case (2 st)
  show ?case by (simp add: settled_def restoreDocWrites_def)
next
  case (3 st)
  have "settled st ((restoreDocWrites st)\<lparr>writes := None\<rparr>)"
    by (simp add: settled_def restoreDocWrites_def)
  then show ?case using settled_trans "3.IH" by simp
next
  case (4 st)
  have f: "settled st (st\<lparr>qnext := qnext st + 1\<rparr>)" by (simp add: settled_def)
  show ?case
  proof (cases "qnext st < length (queue st)")
    case True
    then show ?thesis
      using settled_trans [OF f "4.IH" [OF True]] by (simp add: yieldNext.simps)
  next
    case False
    then show ?thesis using f by (simp add: yieldNext.simps)
  qed
next
  case (5 opts st)
  have "settled st (overrideDocWrites st)" by (simp add: settled_def overrideDocWrites_def)
  then show ?case using settled_trans "5.IH" by (simp add: loadAndYieldNext.simps)
qed

text \<open>
  In synchronous mode, with the element of the request in the document: whatever the
  callbacks do, returning or raising, the \<^verbatim>\<open>finally\<close> block of \<^verbatim>\<open>loadScript\<close> assigns
  \<^verbatim>\<open>null\<close> to the id of the element and calls \<^verbatim>\<open>endFunction\<close>. The id is the text
  \<^verbatim>\<open>null\<close> when \<^verbatim>\<open>endFunction\<close> is called and when \<^verbatim>\<open>loadScript\<close> returns.
\<close>

lemma sync_finally_runs:
  assumes "\<not> truthy (opt_defer opts)"
    and "getElementById (jsstr (opt_id opts)) st = Some r"
  shows "(\<exists>mid. node_id (nodes mid ! r) = Some ''null''
            \<and> trace mid = trace (snd (sync_callbacks opts (Some r) (emit (LoadScript opts) st)))
                            @ [EndFunction opts]
            \<and> snd (loadScript opts ef st) = snd (call_endFunction ef mid))
       \<and> node_id (nodes (snd (loadScript opts ef st)) ! r) = Some ''null''
       \<and> EndFunction opts \<in> set (trace (snd (loadScript opts ef st)))"
proof -
  let ?st0 = "emit (LoadScript opts) st"
  let ?t = "sync_callbacks opts (Some r) ?st0"
  let ?mid = "emit (EndFunction opts) (clear_id r (snd ?t))"
  have r: "r < length (nodes st)"
    using find_node_Some assms(2) unfolding getElementById_def by blast
  have res: "snd (loadScript opts ef st) = snd (call_endFunction ef ?mid)"
    using assms by (simp add: loadScript.simps Let_def)
  have n: "nodes (snd ?t) = nodes st" by (simp add: sync_callbacks_nodes)
  have m1: "node_id (nodes ?mid ! r) = Some ''null''" using r n by (simp add: clear_id_def)
  have m2: "trace ?mid = trace (snd ?t) @ [EndFunction opts]" by (simp add: clear_id_def)
  have s: "settled ?mid (snd (loadScript opts ef st))"
    using drain_settled(2) [of ?mid ef] res by simp
  have len: "r < length (nodes ?mid)" using r n by (simp add: clear_id_def)
  have f1: "node_id (nodes (snd (loadScript opts ef st)) ! r) = Some ''null''"
    using s len m1 by (auto simp: settled_def)
  have "prefix (trace ?mid) (trace (snd (loadScript opts ef st)))"
    using s unfolding settled_def by blast
  then have "set (trace ?mid) \<subseteq> set (trace (snd (loadScript opts ef st)))"
    by (rule set_mono_prefix)
  moreover have "EndFunction opts \<in> set (trace ?mid)"
    unfolding m2 by simp
  ultimately have f2: "EndFunction opts \<in> set (trace (snd (loadScript opts ef st)))"
    by blast
  show ?thesis using res m1 m2 f1 f2 by blast
qed

text \<open>A request in synchronous mode whose \<^verbatim>\<open>loaded\<close> callback raises.\<close>

definition always_raises :: loaded_cb where
  "always_raises = \<lparr>cb_return = (\<lambda>w. Raises), cb_rewrite = (\<lambda>w. w)\<rparr>"

definition sync_load :: options where
  "sync_load = no_options\<lparr>opt_src := Some ''s.js'', opt_id := Some ''s'',
     opt_loaded := Some always_raises, opt_complete := Some ReturnsOther\<rparr>"

definition sync_page :: state where
  "sync_page = snd (script (ObjArg sync_load) page)"

lemma sync_finally_runs_raising:
  "getElementById ''s'' sync_page = Some 2
   \<and> node_id (nodes sync_page ! 2) = Some ''s''
   \<and> fst (loadScript sync_load ScheduledEnd sync_page) = Some CallbackError
   \<and> node_id (nodes (snd (loadScript sync_load ScheduledEnd sync_page)) ! 2) = Some ''null''
   \<and> EndFunction sync_load \<in> set (trace (snd (loadScript sync_load ScheduledEnd sync_page)))
   \<and> map label (trace (snd (loadScript sync_load ScheduledEnd sync_page)))
       = [(''load'', Some ''s.js''), (''loaded'', None), (''end'', Some ''s.js'')]"
proof -
  have d: "\<not> truthy (opt_defer sync_load)" by (simp add: sync_load_def no_options_def)
  have g: "getElementById ''s'' sync_page = Some 2" by code_simp
  have g': "getElementById (jsstr (opt_id sync_load)) sync_page = Some 2"
    using g by (simp add: sync_load_def)
  have i: "node_id (nodes sync_page ! 2) = Some ''s''" by code_simp
  have e: "fst (loadScript sync_load ScheduledEnd sync_page) = Some CallbackError" by code_simp
  have l: "map label (trace (snd (loadScript sync_load ScheduledEnd sync_page)))
       = [(''load'', Some ''s.js''), (''loaded'', None), (''end'', Some ''s.js'')]"
    by code_simp
  show ?thesis
    using sync_finally_runs [OF d g', of ScheduledEnd] g i e l by simp
qed

text \<open>A request in synchronous mode with an id of its own and no callback.\<close>

definition sync_plain :: arg where
  "sync_plain = ObjArg (no_options\<lparr>opt_src := Some ''s.js'', opt_id := Some ''s''\<rparr>)"

definition sync_built :: state where
  "sync_built = snd (script sync_plain page)"

text \<open>
  C4. The claim is that in synchronous mode the id of the element is cleared and the
  completion signal fires. Here \<^verbatim>\<open>script\<close> is called with the id \<^verbatim>\<open>s\<close> while the document is
  being built, and the document becomes ready. The request is loaded and its completion
  signal fires, but the element is left with the id \<^verbatim>\<open>null\<close>: it still has an id, and
  a lookup of \<^verbatim>\<open>null\<close> finds it.
\<close>

theorem sync_id_not_cleared:
  "getElementById ''s'' sync_built = Some 2
   \<and> map label (trace (run [DomReady] sync_built))
       = [(''load'', Some ''s.js''), (''end'', Some ''s.js'')]
   \<and> node_id (nodes (run [DomReady] sync_built) ! 2) = Some ''null''
   \<and> getElementById ''null'' (run [DomReady] sync_built) = Some 2"
proof -
  have 1: "getElementById ''s'' sync_built = Some 2" by code_simp
  have 2: "map label (trace (run [DomReady] sync_built))
       = [(''load'', Some ''s.js''), (''end'', Some ''s.js'')]"
    by code_simp
  have 3: "node_id (nodes (run [DomReady] sync_built) ! 2) = Some ''null''" by code_simp
  have 4: "getElementById ''null'' (run [DomReady] sync_built) = Some 2" by code_simp
  show ?thesis using 1 2 3 4 by simp
qed

section \<open>The loop that moves the nodes ends\<close>

text \<open>
  The children of the placeholder during the loop: each one is a node of the store, has
  the placeholder as its parent and occurs once, and the script element is not under
  the placeholder.
\<close>

definition movable :: "nat \<Rightarrow> nat \<Rightarrow> nat list \<Rightarrow> node list \<Rightarrow> bool" where
  "movable d s cs ns =
     (childNodes (ns ! d) = cs \<and> distinct cs \<and> d < length ns \<and> s < length ns \<and>
      parentNode (ns ! s) \<noteq> Some d \<and>
      (\<forall>c\<in>set cs. parentNode (ns ! c) = Some d \<and> c \<noteq> d \<and> c \<noteq> s \<and> c < length ns))"

lemma movable_detach:
  assumes "movable d s (c # cs) ns"
  shows "movable d s cs (detach c ns)" and "parentNode (detach c ns ! c) = None"
    and "c \<noteq> d" and "c \<noteq> s" and "c \<notin> set cs" and "c < length ns"
proof -
  from assms have a: "childNodes (ns ! d) = c # cs" "distinct (c # cs)" "d < length ns"
      "s < length ns" "parentNode (ns ! s) \<noteq> Some d" "parentNode (ns ! c) = Some d" "c \<noteq> d"
      "c \<noteq> s" "c < length ns"
      "\<And>x. x \<in> set cs \<Longrightarrow> parentNode (ns ! x) = Some d \<and> x \<noteq> d \<and> x \<noteq> s \<and> x < length ns"
    by (auto simp: movable_def)
  show "c \<noteq> d" "c \<noteq> s" "c \<notin> set cs" "c < length ns" using a by auto
  have r: "removeAll c (c # cs) = cs" using a(2) by simp
  show "parentNode (detach c ns ! c) = None"
    using a by (simp add: detach_def Let_def)
  show "movable d s cs (detach c ns)"
    unfolding movable_def
  proof (intro conjI ballI)
    show "childNodes (detach c ns ! d) = cs" using a r by (simp add: detach_def Let_def)
    show "distinct cs" using a(2) by simp
    show "d < length (detach c ns)" "s < length (detach c ns)" using a by simp_all
    show "parentNode (detach c ns ! s) \<noteq> Some d"
      using a(3-9) by (auto simp: detach_def Let_def nth_list_update)
  next
    fix x assume x: "x \<in> set cs"
    then have "x \<noteq> c" using a(2) by auto
    then show "parentNode (detach c ns ! x) = Some d"
      using a(10) [OF x] a by (simp add: detach_def Let_def nth_list_update)
    show "x \<noteq> d" "x \<noteq> s" "x < length (detach c ns)" using a(10) [OF x] by simp_all
  qed
qed

lemma movable_place:
  assumes "movable d s cs ns" and "p \<noteq> d" and "c \<noteq> d" and "c \<noteq> s" and "c \<notin> set cs"
    and "childNodes (ns' ! p) = kids" and "ns' = ns"
  shows "movable d s cs ((ns[p := (ns ! p)\<lparr>childNodes := kids'\<rparr>])
            [c := ((ns[p := (ns ! p)\<lparr>childNodes := kids'\<rparr>]) ! c)\<lparr>parentNode := Some p\<rparr>])"
proof -
  let ?ns2 = "ns[p := (ns ! p)\<lparr>childNodes := kids'\<rparr>]"
  let ?r = "?ns2[c := (?ns2 ! c)\<lparr>parentNode := Some p\<rparr>]"
  from assms(1) have a: "childNodes (ns ! d) = cs" "distinct cs" "d < length ns"
      "s < length ns" "parentNode (ns ! s) \<noteq> Some d"
      "\<And>x. x \<in> set cs \<Longrightarrow> parentNode (ns ! x) = Some d \<and> x \<noteq> d \<and> x \<noteq> s \<and> x < length ns"
    by (auto simp: movable_def)
  have d: "?r ! d = ns ! d" using assms(2,3) by simp
  have s: "parentNode (?r ! s) = parentNode (ns ! s)"
    using assms(4) a(4) by (cases "s = p") simp_all
  have x: "parentNode (?r ! x) = parentNode (ns ! x)" if "x \<in> set cs" for x
  proof -
    have "x \<noteq> c" using that assms(5) by auto
    then show ?thesis using a(6) [OF that] by (cases "x = p") simp_all
  qed
  show ?thesis
    unfolding movable_def
    using a d s x by auto
qed

lemma movable_appendNode:
  assumes "movable d s cs (nodes st)" and "parentNode (nodes st ! c) = None"
    and "c \<noteq> d" and "c \<noteq> s" and "c \<notin> set cs"
    and "appendNode s c st = (None, st')"
  shows "movable d s cs (nodes st')"
proof (cases "parentNode (nodes st ! s)")
  case None
  then show ?thesis using assms(6) by (simp add: appendNode_def)
next
  case (Some p)
  have pd: "p \<noteq> d" using Some assms(1) by (auto simp: movable_def)
  have dt: "detach c (nodes st) = nodes st" using assms(2) by (simp add: detach_def)
  show ?thesis
  proof (cases "nextSibling s (nodes st)")
    case None
    then have "nodes st' = appendChild p c (nodes st)"
      using Some assms(6) by (auto simp: appendNode_def)
    then show ?thesis
      using movable_place [OF assms(1) pd assms(3,4,5) refl refl] dt
      by (simp add: appendChild_def Let_def)
  next
    case sib: (Some b)
    then have r: "insertBefore p c b (nodes st) = (None, nodes st')"
      using Some assms(6) by (auto simp: appendNode_def Let_def prod_eq_iff)
    let ?kids = "takeWhile (\<lambda>x. x \<noteq> b) (childNodes (nodes st ! p)) @
        c # dropWhile (\<lambda>x. x \<noteq> b) (childNodes (nodes st ! p))"
    let ?ns2 = "(nodes st)[p := (nodes st ! p)\<lparr>childNodes := ?kids\<rparr>]"
    from r have "nodes st' = ?ns2[c := (?ns2 ! c)\<lparr>parentNode := Some p\<rparr>]"
      using dt by (auto simp: insertBefore_def Let_def split: if_splits)
    then show ?thesis
      using movable_place [OF assms(1) pd assms(3,4,5) refl refl, of ?kids] by simp
  qed
qed

lemma move_children_ends:
  "movable d s cs (nodes st) \<Longrightarrow> length cs \<le> k \<Longrightarrow> fst (move_children k d s st) \<noteq> Some Hang"
proof (induction k arbitrary: st cs)
  case 0
  then show ?case by (simp add: movable_def)
next
  case (Suc k)
  show ?case
  proof (cases cs)
    case Nil
    then show ?thesis using Suc.prems by (simp add: movable_def)
  next
    case (Cons c cs')
    have m: "movable d s (c # cs') (nodes st)" using Suc.prems(1) Cons by simp
    have kids: "childNodes (nodes st ! d) = c # cs'" using m by (simp add: movable_def)
    have pc: "parentNode (nodes st ! c) = Some d" using m by (simp add: movable_def)
    have rm: "removeChild d c (nodes st) = (None, detach c (nodes st))"
      using pc by (simp add: removeChild_def)
    let ?st1 = "st\<lparr>nodes := detach c (nodes st)\<rparr>"
    note md = movable_detach [OF m]
    obtain e st' where a: "appendNode s c ?st1 = (e, st')" by (cases "appendNode s c ?st1")
    show ?thesis
    proof (cases e)
      case None
      have "movable d s cs' (nodes st')"
        using movable_appendNode [of d s cs' ?st1 c st'] md a None by simp
      then have "fst (move_children k d s st') \<noteq> Some Hang"
        using Suc.IH [of cs' st'] Suc.prems(2) Cons by simp
      then show ?thesis using kids rm a None by simp
    next
      case (Some x)
      have "x \<noteq> Hang"
        using a Some
        by (auto simp: appendNode_def insertBefore_def Let_def split: option.splits if_splits)
      then show ?thesis using kids rm a Some by simp
    qed
  qed
qed


lemma fold_detach_parent:
  "parentNode (fold (\<lambda>c ns. ns[c := (ns ! c)\<lparr>parentNode := None\<rparr>]) cs ns ! x) =
     (if x \<in> set cs \<and> x < length ns then None else parentNode (ns ! x))"
proof (induction cs arbitrary: ns)
  case Nil
  then show ?case by simp
next
  case (Cons c cs)
  show ?case
    using Cons.IH [of "ns[c := (ns ! c)\<lparr>parentNode := None\<rparr>]"]
    by (cases "x = c") (auto simp: nth_list_update list_update_beyond)
qed

lemma movable_set_innerHTML:
  assumes "d < length (nodes st)" and "s < length (nodes st)"
    and "parentNode (nodes st ! s) = Some d \<longrightarrow> s \<in> set (childNodes (nodes st ! d))"
  shows "movable d s (childNodes (nodes (set_innerHTML d html st) ! d))
           (nodes (set_innerHTML d html st))"
proof -
  let ?f = "\<lambda>c ns. ns[c := (ns ! c)\<lparr>parentNode := None\<rparr>]"
  let ?old = "childNodes (nodes st ! d)"
  let ?ns1 = "fold ?f ?old (nodes st)"
  let ?pieces = "parseHTML st html"
  let ?k = "length (nodes st)"
  let ?fresh = "map (\<lambda>m. (new_node ''#fragment'')\<lparr>markup := m, parentNode := Some d\<rparr>) ?pieces"
  let ?ns2 = "?ns1 @ ?fresh"
  let ?cs = "[?k ..< ?k + length ?pieces]"
  let ?r = "?ns2[d := (?ns2 ! d)\<lparr>childNodes := ?cs\<rparr>]"
  have k: "length ?ns1 = ?k" by (rule length_fold_update)
  have res: "nodes (set_innerHTML d html st) = ?r"
    by (simp add: set_innerHTML_def Let_def k)
  have ps: "parentNode (?ns1 ! s) \<noteq> Some d"
    using assms(2,3) by (auto simp: fold_detach_parent)
  have "movable d s ?cs ?r"
    unfolding movable_def
  proof (intro conjI ballI)
    show "childNodes (?r ! d) = ?cs" using assms(1) k by simp
    show "distinct ?cs" by simp
    show "d < length ?r" "s < length ?r" using assms(1,2) k by simp_all
    show "parentNode (?r ! s) \<noteq> Some d"
      using ps assms(1,2) k by (cases "s = d") (simp_all add: nth_append)
  next
    fix c assume c: "c \<in> set ?cs"
    then have c1: "?k \<le> c" "c < ?k + length ?pieces" by simp_all
    show "c \<noteq> d" "c \<noteq> s" using c1 assms(1,2) by simp_all
    show "c < length ?r" using c1 k by simp
    have "?r ! c = ?fresh ! (c - ?k)"
      using c1 assms(1) k by (simp add: nth_append)
    then show "parentNode (?r ! c) = Some d" using c1 by simp
  qed
  moreover have "childNodes (?r ! d) = ?cs" using assms(1) k by simp
  ultimately show ?thesis using res by simp
qed

lemma replay_ends:
  assumes "d < length (nodes st)" and "s < length (nodes st)"
    and "parentNode (nodes st ! s) = Some d \<longrightarrow> s \<in> set (childNodes (nodes st ! d))"
  shows "fst (replay d s ws st) \<noteq> Some Hang"
proof -
  let ?st2 = "st\<lparr>nodes := (nodes st)[d := (nodes st ! d)\<lparr>display := Some ''none''\<rparr>]\<rparr>"
  let ?st3 = "set_innerHTML d (concat ws) ?st2"
  have a: "d < length (nodes ?st2)" "s < length (nodes ?st2)" using assms(1,2) by simp_all
  have b: "parentNode (nodes ?st2 ! s) = Some d \<longrightarrow> s \<in> set (childNodes (nodes ?st2 ! d))"
    using assms by (cases "s = d") simp_all
  have "movable d s (childNodes (nodes ?st3 ! d)) (nodes ?st3)"
    using movable_set_innerHTML [OF a b] .
  then show ?thesis
    using move_children_ends [of d s "childNodes (nodes ?st3 ! d)" ?st3] 
    by (simp add: replay_def Let_def)
qed

text \<open>
  The element is where its parent says: the parent is a node of the store, is not the
  element itself, and has it among its children.
\<close>

definition attached_well :: "nat \<Rightarrow> state \<Rightarrow> bool" where
  "attached_well s st =
     (s < length (nodes st) \<and>
      (case parentNode (nodes st ! s) of
         None \<Rightarrow> True
       | Some p \<Rightarrow> p < length (nodes st) \<and> s \<in> set (childNodes (nodes st ! p))))"

lemma getElementById_lt: "getElementById i st = Some d \<Longrightarrow> d < length (nodes st)"
  using find_node_Some unfolding getElementById_def by blast

lemma exn_not_hang:
  "fst (insertBefore p c r ns) \<noteq> Some Hang" "fst (removeChild p c ns) \<noteq> Some Hang"
  by (simp_all add: insertBefore_def removeChild_def Let_def)

lemma appendNode_not_hang: "fst (appendNode s c st) \<noteq> Some Hang"
  by (simp add: appendNode_def exn_not_hang Let_def split: option.splits)

lemma finish_load_not_hang: "fst (finish_load opts s dv st) \<noteq> Some Hang"
  by (auto simp: finish_load_def remove_placeholder_def call_complete_def removeChild_def Let_def
      split: option.splits prod.splits if_splits)

lemma reinsert_ends:
  assumes "attached_well s st"
  shows "fst (reinsert opts s st) \<noteq> Some Hang"
proof (cases "writes st")
  case None
  then show ?thesis by (simp add: reinsert_def finish_load_not_hang)
next
  case (Some ws)
  let ?dv = "getElementById (jsstr (opt_id opts)) st"
  from assms have s: "s < length (nodes st)" by (simp add: attached_well_def)
  obtain e d st1 where p: "ensure_placeholder ?dv s st = (e, d, st1)"
    by (cases "ensure_placeholder ?dv s st") auto
  show ?thesis
  proof (cases e)
    case (Some x)
    have "x \<noteq> Hang"
      using p Some appendNode_not_hang
      by (auto simp: ensure_placeholder_def Let_def split: option.splits)
    then show ?thesis using \<open>writes st = Some ws\<close> p Some by (simp add: reinsert_def)
  next
    case None
    have w: "d < length (nodes st1) \<and> s < length (nodes st1) \<and>
        (parentNode (nodes st1 ! s) = Some d \<longrightarrow> s \<in> set (childNodes (nodes st1 ! d)))"
    proof (cases ?dv)
      case found: (Some d')
      then have "d = d'" "st1 = st" using p by (simp_all add: ensure_placeholder_def)
      then show ?thesis
        using getElementById_lt [OF found] assms
        by (auto simp: attached_well_def split: option.splits)
    next
      case none: None
      let ?c = "length (nodes st)"
      let ?st0 = "st\<lparr>nodes := nodes st @ [new_node ''div'']\<rparr>"
      have dd: "d = ?c" and a: "appendNode s ?c ?st0 = (None, st1)"
        using p None none by (auto simp: ensure_placeholder_def createElement_def Let_def prod_eq_iff)
      have len: "length (nodes st1) = Suc ?c"
        using keeps_appendNode [of ?st0 s ?c] a
        by (auto simp: appendNode_def Let_def split: option.splits)
      have ps: "parentNode (nodes st1 ! s) = parentNode (nodes st ! s)"
        using a s
        by (auto simp: appendNode_def appendChild_def insertBefore_def detach_def new_node_def
            Let_def nth_append nth_list_update split: option.splits if_splits)
      have "parentNode (nodes st ! s) \<noteq> Some ?c"
        using assms by (auto simp: attached_well_def split: option.splits)
      then show ?thesis using dd len ps s by simp
    qed
    have r: "fst (replay d s ws st1) \<noteq> Some Hang"
      using replay_ends w by blast
    obtain e4 st4 where q: "replay d s ws st1 = (e4, st4)" by (cases "replay d s ws st1")
    show ?thesis
      using \<open>writes st = Some ws\<close> p None q r finish_load_not_hang [of opts s "Some d" st4]
      by (cases e4) (simp_all add: reinsert_def)
  qed
qed

text \<open>
  With the script element where its parent says, the counter of the loop is never used
  up: \<^verbatim>\<open>handleScriptLoaded\<close> returns or raises, it does not hang.
\<close>

lemma handleScriptLoaded_ends:
  assumes "attached_well s st"
  shows "fst (handleScriptLoaded opts s st) \<noteq> Some Hang"
proof (cases "opt_loaded opts")
  case None
  then show ?thesis using reinsert_ends [OF assms] by (simp add: handleScriptLoaded_def)
next
  case (Some cb)
  have "attached_well s (snd (call_loaded cb (Some s) st))"
    using assms by (simp add: attached_well_def call_loaded_def split: option.splits)
  then show ?thesis
    using Some reinsert_ends [of s "snd (call_loaded cb (Some s) st)" opts]
    by (cases "cb_return cb (writes st)") (simp_all add: handleScriptLoaded_def call_loaded_def)
qed

end
